theory Spec2Isabelle
  imports Main "HOL-Library.AList" "HOL-Library.Multiset" "HOL-Library.Word"
begin

section \<open>Strings: the library functions ssdp.go calls\<close>

text \<open>
  A Go string is a sequence of bytes; it is modelled as a \<open>string\<close> (a list of
  characters, one per byte).
\<close>

definition dquote :: char where
  "dquote = CHR 0x22"

definition colon :: char where
  "colon = CHR 0x3A"

definition newline :: char where
  "newline = CHR 0x0A"

text \<open>
  \<open>strings.Split(s, sep)\<close> for a separator of one byte: the pieces between the
  separators, in order; a string without separator (the empty one too) is one piece.
\<close>

fun Split :: "string \<Rightarrow> char \<Rightarrow> string list" where
  "Split [] sep = [[]]"
| "Split (c # cs) sep =
     (if c = sep then [] # Split cs sep
      else (case Split cs sep of
              [] \<Rightarrow> [[c]]
            | p # ps \<Rightarrow> (c # p) # ps))"

text \<open>
  \<open>strings.ToLower\<close> on ASCII: the letters A to Z are mapped to a to z, every
  other byte is kept.
\<close>

definition lowerChar :: "char \<Rightarrow> char" where
  "lowerChar c =
     (let n = (of_char c :: nat)
      in if 65 \<le> n \<and> n \<le> 90 then char_of (n + 32) else c)"

definition ToLower :: "string \<Rightarrow> string" where
  "ToLower s = map lowerChar s"

definition isDigit :: "char \<Rightarrow> bool" where
  "isDigit c = (48 \<le> (of_char c :: nat) \<and> (of_char c :: nat) \<le> 57)"

definition digitVal :: "char \<Rightarrow> nat" where
  "digitVal c = (of_char c :: nat) - 48"

definition digitChar :: "nat \<Rightarrow> char" where
  "digitChar d = char_of (48 + d)"

text \<open>The decimal digits of a natural number, and \<open>%d\<close> of \<open>fmt.Sprintf\<close>.\<close>

fun utoa :: "nat \<Rightarrow> string" where
  "utoa n = (if n < 10 then [digitChar n] else utoa (n div 10) @ [digitChar (n mod 10)])"

declare utoa.simps [simp del]

definition itoa :: "int \<Rightarrow> string" where
  "itoa i = (if i < 0 then CHR 0x2D # utoa (nat (- i)) else utoa (nat i))"

text \<open>
  \<open>strconv.ParseInt(s, 10, 0)\<close>: an optional sign, then one or more decimal
  digits. The result is a value and an error, as in Go: a string that is not a number
  gives 0 and a syntax error, a number outside the range of \<open>int\<close> gives the
  nearest bound and a range error. Bit size 0 is the size of \<open>int\<close>, 64 bits here.
\<close>

datatype NumError = ErrSyntax | ErrRange

definition intSize :: nat where
  "intSize = 64"

definition digitsValue :: "string \<Rightarrow> nat" where
  "digitsValue ds = foldl (\<lambda>acc c. acc * 10 + digitVal c) 0 ds"

definition ParseInt :: "string \<Rightarrow> int \<times> NumError option" where
  "ParseInt s =
     (if s = [] then (0, Some ErrSyntax)
      else
        (let neg = (hd s = CHR 0x2D);
             ds = (if hd s = CHR 0x2B \<or> hd s = CHR 0x2D then tl s else s)
         in if ds = [] \<or> \<not> list_all isDigit ds then (0, Some ErrSyntax)
            else
              (let un = digitsValue ds; cutoff = (2::nat) ^ (intSize - 1)
               in if \<not> neg \<and> cutoff \<le> un then (int cutoff - 1, Some ErrRange)
                  else if neg \<and> cutoff < un then (- int cutoff, Some ErrRange)
                  else (if neg then - int un else int un, None))))"

text \<open>
  A slice expression \<open>s[lo:hi]\<close> of a string: Go panics unless
  \<open>0 \<le> lo \<le> hi \<le> len(s)\<close>. An index expression \<open>s[i]\<close> panics unless
  \<open>0 \<le> i < len(s)\<close>.
\<close>

datatype panic = IndexOutOfRange | SliceBoundsOutOfRange

definition slice :: "string \<Rightarrow> int \<Rightarrow> int \<Rightarrow> panic + string" where
  "slice s lo hi =
     (if 0 \<le> lo \<and> lo \<le> hi \<and> hi \<le> int (length s)
      then Inr (take (nat (hi - lo)) (drop (nat lo) s))
      else Inl SliceBoundsOutOfRange)"

section \<open>Parsing the fields of a message\<close>

text \<open>
  The device id of a USN, as \<open>notify\<close> and \<open>parseResponse\<close> both compute it
  (the same statements in both functions).
\<close>

definition deviceIdOfUsn :: "string \<Rightarrow> string" where
  "deviceIdOfUsn usn =
     (if length usn > 0 then
        (let parts = Split usn colon
         in if length parts > 2 then
              (if parts ! 0 = ''uuid'' then parts ! 1 else [])
            else [])
      else [])"

text \<open>
  \<open>cacheControlAge\<close> is the regular expression \<open>.*max-age=([0-9]+).*\<close>, and
  \<open>FindStringSubmatch\<close> gives the leftmost match, with the choices a backtracking
  matcher makes: \<open>.\<close> is any character but a newline and \<open>.*\<close> takes as much as it
  can. So the match lies in the first line that holds \<open>max-age=\<close> followed by a
  digit, it is that whole line, and the group is the longest run of digits after the
  last such \<open>max-age=\<close> of the line. The result is empty when nothing matches, and the
  match followed by the group otherwise.
\<close>

definition maxAgeAt :: "string \<Rightarrow> bool" where
  "maxAgeAt s = (take 8 s = ''max-age='' \<and> (case drop 8 s of [] \<Rightarrow> False | d # _ \<Rightarrow> isDigit d))"

fun lastMaxAge :: "string \<Rightarrow> string option" where
  "lastMaxAge [] = None"
| "lastMaxAge (c # cs) =
     (case lastMaxAge cs of
        Some ds \<Rightarrow> Some ds
      | None \<Rightarrow> (if maxAgeAt (c # cs) then Some (takeWhile isDigit (drop 8 (c # cs))) else None))"

fun firstLineMatch :: "string list \<Rightarrow> string list" where
  "firstLineMatch [] = []"
| "firstLineMatch (l # ls) =
     (case lastMaxAge l of
        Some ds \<Rightarrow> [l, ds]
      | None \<Rightarrow> firstLineMatch ls)"

definition FindStringSubmatch :: "string \<Rightarrow> string list" where
  "FindStringSubmatch cc = firstLineMatch (Split cc newline)"

text \<open>
  The max-age of a \<open>CACHE-CONTROL\<close> value, as \<open>notify\<close> and \<open>parseResponse\<close>
  both compute it; \<open>cc\<close> is what \<open>Header.Get\<close> returned, empty when the header is
  absent.
\<close>

definition maxAgeOf :: "string \<Rightarrow> int" where
  "maxAgeOf cc =
     (if cc \<noteq> [] then
        (let subMatch = FindStringSubmatch cc
         in if length subMatch = 2 then
              (case ParseInt (subMatch ! 1) of
                 (maxAgeInt64, None) \<Rightarrow> maxAgeInt64
               | (maxAgeInt64, Some err) \<Rightarrow> - 1)
            else - 1)
      else - 1)"

section \<open>The engine\<close>

subsection \<open>Data\<close>

text \<open>
  The functions of ssdp.go are modelled one call at a time: each runs to its end on the
  state before the next starts, as the calls under \<open>interactionLock\<close> do. The run
  of a timer's function and the two loops of \<open>Start\<close> are not part of the model,
  and the calls of the logger are left out.

  A \<open>*time.Timer\<close> made by \<open>advertiseTimer(ads, d, age)\<close>: it is armed for
  \<open>d\<close> (in seconds here), and its function advertises \<open>ads\<close> and re-arms it for
  \<open>d\<close> plus \<open>age\<close> seconds. \<open>Stop\<close> disarms it.
\<close>

record Timer =
  target :: nat
  delay :: nat
  age :: int
  active :: bool

definition Timer_Stop :: "Timer \<Rightarrow> Timer" where
  "Timer_Stop t = t\<lparr>active := False\<rparr>"

text \<open>
  The struct \<open>AdvertisableServer\<close>. The three unexported fields are set by
  \<open>AdvertiseServer\<close>, whatever the caller's value held.
\<close>

record AdvertisableServer =
  ServiceType :: string
  DeviceUuid :: string
  Location :: string
  MaxAge :: int
  usn :: string
  lastTimer :: Timer
  last3sTimer :: Timer

text \<open>
  A parsed \<open>http.Request\<close> and \<open>http.Response\<close>, as far as ssdp.go reads them.
  The header maps a key to its first value; \<open>Header.Get\<close> does not tell upper from
  lower case in a key, so a key stands for all its spellings, and it gives the empty
  string for a key the header does not have.
\<close>

record Request =
  Method :: string
  Path :: string
  Header :: "string \<rightharpoonup> string"

record HttpResponse =
  RespHeader :: "string \<rightharpoonup> string"

definition Get :: "(string \<rightharpoonup> string) \<Rightarrow> string \<Rightarrow> string" where
  "Get h k = (case h k of None \<Rightarrow> [] | Some v \<Rightarrow> v)"

record AliveMessage =
  SearchType :: string
  DeviceId :: string
  Usn :: string
  LocationOf :: string
  MaxAgeOf :: int
  Server :: string
  RawRequest :: Request

record ByeMessage =
  ByeSearchType :: string
  ByeDeviceId :: string
  ByeUsn :: string
  ByeRawRequest :: Request

record ResponseMessage =
  RespMaxAge :: int
  RespSearchType :: string
  RespDeviceId :: string
  RespUsn :: string
  RespLocation :: string
  RespServer :: string
  RawResponse :: HttpResponse

text \<open>A call of one of the three methods of \<open>SsdpListener\<close>.\<close>

datatype event =
  NotifyAlive AliveMessage
| NotifyBye ByeMessage
| Response ResponseMessage

record writeMessage =
  message :: string
  to :: "string option"
  shouldExit :: bool

datatype error = ErrNotRunning | ErrResolve | ErrNoInterface

text \<open>
  What ssdp.go takes from its platform and from the libraries it calls: the name of
  the operating system, the clock (already formatted as RFC 1123),
  \<open>net.ResolveUDPAddr\<close>, \<open>http.ReadRequest\<close>, \<open>http.ReadResponse\<close> (each
  \<open>None\<close> on an error), and whether \<open>createSocket\<close> fails.
\<close>

record env =
  GOOS :: string
  now :: string
  ResolveUDPAddr :: "string \<Rightarrow> string option"
  ReadRequest :: "string \<Rightarrow> Request option"
  ReadResponse :: "string \<Rightarrow> HttpResponse option"
  createSocket :: "error option"

text \<open>
  The struct \<open>Ssdp\<close>. A Go map is an association list with distinct keys, whose
  order is the order a \<open>range\<close> loop visits it in (Go leaves that order open). A
  \<open>*AdvertisableServer\<close> is an index into \<open>store\<close>, where the objects live:
  both maps hold pointers to the same objects. \<open>socket\<close> tells whether the socket
  is there (not \<open>nil\<close>). The listener is \<open>None\<close> for \<open>nil\<close>, and otherwise
  holds the calls it has received, oldest first. \<open>writeChannel\<close> holds the
  messages sent on the channel, oldest first, and \<open>slept\<close> the durations
  (in nanoseconds) \<open>time.Sleep\<close> was called with.
\<close>

record Ssdp =
  advertisableServers :: "(string \<times> nat list) list"
  deviceIdToServer :: "(string \<times> nat) list"
  store :: "AdvertisableServer list"
  socket :: bool
  listener :: "event list option"
  listenSearchTargets :: "string \<rightharpoonup> bool"
  writeChannel :: "writeMessage list"
  isRunning :: bool
  slept :: "int list"

definition send :: "writeMessage \<Rightarrow> Ssdp \<Rightarrow> Ssdp" where
  "send m s = s\<lparr>writeChannel := writeChannel s @ [m]\<rparr>"

definition notifyListener :: "event \<Rightarrow> Ssdp \<Rightarrow> Ssdp" where
  "notifyListener ev s =
     (case listener s of
        None \<Rightarrow> s
      | Some evs \<Rightarrow> s\<lparr>listener := Some (evs @ [ev])\<rparr>)"

subsection \<open>Building messages\<close>

definition CRLF :: string where
  "CRLF = [CHR 0x0D, CHR 0x0A]"

definition serverName :: "env \<Rightarrow> string" where
  "serverName e = GOOS e @ ''/0.0 UPnP/1.0 gossdp/0.1''"

definition multicastAddr :: string where
  "multicastAddr = ''239.255.255.250:1900''"

text \<open>
  \<open>createSsdpHeader\<close>: \<open>vars\<close> is a Go map, written in the order its
  \<open>range\<close> loop takes.
\<close>

definition createSsdpHeader :: "string \<Rightarrow> (string \<times> string) list \<Rightarrow> bool \<Rightarrow> string" where
  "createSsdpHeader head vars isResponse =
     (if isResponse then ''HTTP/1.1 '' @ head @ CRLF else head @ '' * HTTP/1.1'' @ CRLF)
     @ concat (map (\<lambda>(k, v). k @ '': '' @ v @ CRLF) vars)
     @ CRLF"

subsection \<open>The registry: AdvertiseServer and RemoveServer\<close>

definition advertiseTimer :: "nat \<Rightarrow> nat \<Rightarrow> int \<Rightarrow> Timer" where
  "advertiseTimer ads d a = \<lparr>target = ads, delay = d, age = a, active = True\<rparr>"

definition usnOf :: "AdvertisableServer \<Rightarrow> string" where
  "usnOf ads = ''uuid:'' @ DeviceUuid ads @ ''::'' @ ServiceType ads"

definition AdvertiseServer :: "AdvertisableServer \<Rightarrow> Ssdp \<Rightarrow> Ssdp" where
  "AdvertiseServer ads s =
     (if \<not> isRunning s then s
      else
        (let adsPointer = length (store s);
             obj = ads\<lparr>usn := usnOf ads,
                       lastTimer := advertiseTimer adsPointer 1 (MaxAge ads),
                       last3sTimer := advertiseTimer adsPointer 3 (MaxAge ads)\<rparr>
         in s\<lparr>store := store s @ [obj],
               advertisableServers :=
                 (case map_of (advertisableServers s) (ServiceType ads) of
                    Some v \<Rightarrow>
                      AList.update (ServiceType ads) (v @ [adsPointer]) (advertisableServers s)
                  | None \<Rightarrow>
                      AList.update (ServiceType ads) [adsPointer] (advertisableServers s)),
               deviceIdToServer :=
                 AList.update (DeviceUuid ads) adsPointer (deviceIdToServer s)\<rparr>))"

text \<open>
  The two statements \<open>ads.lastTimer.Stop()\<close> and \<open>ads.last3sTimer.Stop()\<close>: on
  an object, and on the object a pointer leads to.
\<close>

definition stopBoth :: "AdvertisableServer \<Rightarrow> AdvertisableServer" where
  "stopBoth a =
     a\<lparr>lastTimer := Timer_Stop (lastTimer a), last3sTimer := Timer_Stop (last3sTimer a)\<rparr>"

definition stopTimers :: "nat \<Rightarrow> Ssdp \<Rightarrow> Ssdp" where
  "stopTimers ads s = s\<lparr>store := (store s)[ads := stopBoth (store s ! ads)]\<rparr>"

text \<open>
  The loop of \<open>RemoveServer\<close> over the group: the first index whose object has the
  device UUID, where the loop breaks; \<open>None\<close> when it runs to the end.
\<close>

fun firstIndex :: "(nat \<Rightarrow> bool) \<Rightarrow> nat list \<Rightarrow> nat option" where
  "firstIndex P [] = None"
| "firstIndex P (p # ps) =
     (if P p then Some 0
      else (case firstIndex P ps of None \<Rightarrow> None | Some i \<Rightarrow> Some (Suc i)))"

definition RemoveServer :: "string \<Rightarrow> Ssdp \<Rightarrow> Ssdp" where
  "RemoveServer deviceUuid s =
     (if \<not> isRunning s then s
      else
        (case map_of (deviceIdToServer s) deviceUuid of
           None \<Rightarrow> s
         | Some ads \<Rightarrow>
             (let s1 = stopTimers ads s;
                  s2 = s1\<lparr>deviceIdToServer := AList.delete deviceUuid (deviceIdToServer s1)\<rparr>;
                  st = ServiceType (store s2 ! ads)
              in (case map_of (advertisableServers s2) st of
                    None \<Rightarrow> s2
                  | Some grp \<Rightarrow>
                      if length grp = 1
                      then s2\<lparr>advertisableServers := AList.delete st (advertisableServers s2)\<rparr>
                      else
                        (case firstIndex
                                (\<lambda>p. DeviceUuid (store s2 ! p) = DeviceUuid (store s2 ! ads))
                                grp of
                           None \<Rightarrow> s2
                         | Some i \<Rightarrow>
                             s2\<lparr>advertisableServers :=
                                  AList.update st (take i grp @ drop (i + 1) grp)
                                    (advertisableServers s2)\<rparr>)))))"

text \<open>
  \<open>NewSsdpWithLogger\<close>, which \<open>NewSsdp\<close> calls: the error of
  \<open>createSocket\<close>, or a running engine with empty maps.
\<close>

definition NewSsdp :: "env \<Rightarrow> event list option \<Rightarrow> error + Ssdp" where
  "NewSsdp e l =
     (case createSocket e of
        Some err \<Rightarrow> Inl err
      | None \<Rightarrow>
          Inr \<lparr>advertisableServers = [], deviceIdToServer = [], store = [], socket = True,
               listener = l, listenSearchTargets = Map.empty, writeChannel = [],
               isRunning = True, slept = []\<rparr>)"

subsection \<open>Advertising, and Stop\<close>

definition advertiseServer :: "env \<Rightarrow> nat \<Rightarrow> bool \<Rightarrow> Ssdp \<Rightarrow> Ssdp" where
  "advertiseServer e ads alive s =
     (let ntsString = (if \<not> alive then ''ssdp:byebye'' else ''ssdp:alive'');
          heads = [(''HOST'', multicastAddr),
                   (''NT'', ServiceType (store s ! ads)),
                   (''NTS'', ntsString),
                   (''USN'', usn (store s ! ads))]
                  @ (if alive
                     then [(''LOCATION'', Location (store s ! ads)),
                           (''CACHE-CONTROL'', ''max-age='' @ itoa (MaxAge (store s ! ads))),
                           (''SERVER'', serverName e)]
                     else []);
          msg = createSsdpHeader ''NOTIFY'' heads False
      in (case ResolveUDPAddr e multicastAddr of
            Some addr \<Rightarrow> send \<lparr>message = msg, to = Some addr, shouldExit = False\<rparr> s
          | None \<Rightarrow> s))"

fun advertiseClosedLoop :: "env \<Rightarrow> (string \<times> nat) list \<Rightarrow> Ssdp \<Rightarrow> Ssdp" where
  "advertiseClosedLoop e [] s = s"
| "advertiseClosedLoop e ((k, ad) # rest) s =
     advertiseClosedLoop e rest (advertiseServer e ad False (stopTimers ad s))"

definition advertiseClosed :: "env \<Rightarrow> Ssdp \<Rightarrow> Ssdp" where
  "advertiseClosed e s = advertiseClosedLoop e (deviceIdToServer s) s"

text \<open>
  \<open>Stop\<close>: after the byebyes it sends the message that ends the writer, closes the
  channel and the sockets, and sets both sockets to \<open>nil\<close>.
\<close>

definition Stop :: "env \<Rightarrow> Ssdp \<Rightarrow> Ssdp" where
  "Stop e s0 =
     (let s = s0\<lparr>isRunning := False\<rparr>
      in if socket s then
           (let s1 = (if length (advertisableServers s) > 0 then advertiseClosed e s else s);
                s2 = send \<lparr>message = [], to = None, shouldExit = True\<rparr> s1
            in s2\<lparr>socket := False\<rparr>)
         else s)"

subsection \<open>ListenFor\<close>

text \<open>The goroutine that sends the M-SEARCH is taken to have sent it.\<close>

definition ListenFor :: "env \<Rightarrow> string \<Rightarrow> Ssdp \<Rightarrow> error option \<times> Ssdp" where
  "ListenFor e searchTarget s =
     (if \<not> isRunning s then (Some ErrNotRunning, s)
      else
        (let s1 = s\<lparr>listenSearchTargets := (listenSearchTargets s)(searchTarget \<mapsto> True)\<rparr>;
             msg = createSsdpHeader ''M-SEARCH''
                     [(''HOST'', multicastAddr),
                      (''ST'', searchTarget),
                      (''MAN'', dquote # ''ssdp:discover'' @ [dquote]),
                      (''MX'', ''3'')]
                     False
         in (case ResolveUDPAddr e multicastAddr of
               None \<Rightarrow> (Some ErrResolve, s1)
             | Some addr \<Rightarrow>
                 (None, send \<lparr>message = msg, to = Some addr, shouldExit = False\<rparr> s1))))"

subsection \<open>Incoming messages\<close>

definition notify :: "Request \<Rightarrow> Ssdp \<Rightarrow> Ssdp" where
  "notify req s =
     (if listener s = None then s
      else
        (let nts = Get (Header req) ''NTS''
         in if nts = [] then s
            else
              (let searchType = Get (Header req) ''NT''
               in if searchType = [] then s
                  else
                    (let usn = Get (Header req) ''USN'';
                         deviceId = deviceIdOfUsn usn;
                         nts = ToLower nts
                     in if nts = ''ssdp:alive'' then
                          notifyListener
                            (NotifyAlive
                               \<lparr>SearchType = searchType, DeviceId = deviceId, Usn = usn,
                                LocationOf = Get (Header req) ''LOCATION'',
                                MaxAgeOf = maxAgeOf (Get (Header req) ''CACHE-CONTROL''),
                                Server = Get (Header req) ''SERVER'',
                                RawRequest = req\<rparr>) s
                        else if nts = ''ssdp:byebye'' then
                          notifyListener
                            (NotifyBye
                               \<lparr>ByeSearchType = searchType, ByeDeviceId = deviceId,
                                ByeUsn = usn, ByeRawRequest = req\<rparr>) s
                        else s))))"

definition parseResponse :: "env \<Rightarrow> string \<Rightarrow> string \<Rightarrow> Ssdp \<Rightarrow> Ssdp" where
  "parseResponse e msg hostPort s =
     (if listener s = None then s
      else
        (case ReadResponse e msg of
           None \<Rightarrow> s
         | Some resp \<Rightarrow>
             (let maxAge = maxAgeOf (Get (RespHeader resp) ''CACHE-CONTROL'');
                  usn = Get (RespHeader resp) ''USN'';
                  deviceId = deviceIdOfUsn usn
              in notifyListener
                   (Response
                      \<lparr>RespMaxAge = maxAge,
                       RespSearchType = Get (RespHeader resp) ''ST'',
                       RespDeviceId = deviceId,
                       RespUsn = usn,
                       RespLocation = Get (RespHeader resp) ''LOCATION'',
                       RespServer = Get (RespHeader resp) ''SERVER'',
                       RawResponse = resp\<rparr>) s)))"

subsection \<open>The search responder\<close>

definition respondToMSearch :: "env \<Rightarrow> nat \<Rightarrow> string \<Rightarrow> Ssdp \<Rightarrow> Ssdp" where
  "respondToMSearch e ads sendTo s =
     (let msg = createSsdpHeader ''200 OK''
                  [(''ST'', ServiceType (store s ! ads)),
                   (''USN'', usn (store s ! ads)),
                   (''LOCATION'', Location (store s ! ads)),
                   (''CACHE-CONTROL'', ''max-age='' @ itoa (MaxAge (store s ! ads))),
                   (''DATE'', now e),
                   (''SERVER'', serverName e),
                   (''EXT'', [])]
                  True
      in (case ResolveUDPAddr e sendTo of
            None \<Rightarrow> s
          | Some addr \<Rightarrow> send \<lparr>message = msg, to = Some addr, shouldExit = False\<rparr> s))"

text \<open>The loop \<open>for _, d := range v\<close> over one group.\<close>

fun respondToGroup :: "env \<Rightarrow> nat list \<Rightarrow> string \<Rightarrow> Ssdp \<Rightarrow> Ssdp" where
  "respondToGroup e [] sendTo s = s"
| "respondToGroup e (d # v) sendTo s = respondToGroup e v sendTo (respondToMSearch e d sendTo s)"

text \<open>The loop \<open>for _, v := range s.advertisableServers\<close> over all groups.\<close>

fun respondToAll :: "env \<Rightarrow> (string \<times> nat list) list \<Rightarrow> string \<Rightarrow> Ssdp \<Rightarrow> Ssdp" where
  "respondToAll e [] sendTo s = s"
| "respondToAll e ((k, v) # rest) sendTo s = respondToAll e rest sendTo (respondToGroup e v sendTo s)"

text \<open>
  The first statement of \<open>inMSearch\<close>: the bounds of the slice expression
  \<open>st[1:len(st) - 2]\<close>, and the search target after it. Indexing an empty string
  panics.
\<close>

definition unquoteBounds :: "string \<Rightarrow> int \<times> int" where
  "unquoteBounds st = (1, int (length st) - 2)"

definition unquoteST :: "string \<Rightarrow> panic + string" where
  "unquoteST st =
     (if st = [] then Inl IndexOutOfRange
      else if st ! 0 = dquote \<and> st ! (length st - 1) = dquote
      then slice st (fst (unquoteBounds st)) (snd (unquoteBounds st))
      else Inr st)"

text \<open>The value of \<open>mx\<close> when \<open>inMSearch\<close> reaches \<open>time.Sleep\<close>.\<close>

definition mxOf :: "Request \<Rightarrow> int" where
  "mxOf req =
     (let mxStr = Get (Header req) ''MX''
      in if mxStr \<noteq> [] then
           (case ParseInt mxStr of
              (mxInt64, Some err) \<Rightarrow> mxInt64
            | (mxInt64, None) \<Rightarrow> 0)
         else 0)"

text \<open>
  \<open>time.Duration(mx) * time.Second\<close>: a product of 64-bit integers, in
  nanoseconds.
\<close>

definition Second :: int where
  "Second = 1000000000"

definition seconds :: "int \<Rightarrow> int" where
  "seconds mx = sint (word_of_int mx * word_of_int Second :: 64 word)"

definition inMSearch :: "env \<Rightarrow> string \<Rightarrow> Request \<Rightarrow> string \<Rightarrow> Ssdp \<Rightarrow> panic + Ssdp" where
  "inMSearch e st0 req sendTo s0 =
     (case unquoteST st0 of
        Inl p \<Rightarrow> Inl p
      | Inr st \<Rightarrow>
          (let mx = mxOf req;
               s = s0\<lparr>slept := slept s0 @ [seconds mx]\<rparr>
           in Inr (if st = ''ssdp:all'' then respondToAll e (advertisableServers s) sendTo s
                   else
                     (case map_of (deviceIdToServer s) st of
                        Some d \<Rightarrow> respondToMSearch e d sendTo s
                      | None \<Rightarrow>
                          (case map_of (advertisableServers s) st of
                             Some v \<Rightarrow> respondToGroup e v sendTo s
                           | None \<Rightarrow> s)))))"

definition msearch :: "env \<Rightarrow> Request \<Rightarrow> string \<Rightarrow> Ssdp \<Rightarrow> panic + Ssdp" where
  "msearch e req hostPort s =
     (if Get (Header req) ''MAN'' = [] then Inr s
      else if Get (Header req) ''MX'' = [] then Inr s
      else
        (let st = Get (Header req) ''ST''
         in if st = [] then Inr s else inMSearch e st req hostPort s))"

subsection \<open>Dispatch\<close>

definition parseCommand :: "env \<Rightarrow> Request \<Rightarrow> string \<Rightarrow> Ssdp \<Rightarrow> panic + Ssdp" where
  "parseCommand e req hostPort s =
     (if Method req = ''NOTIFY'' then Inr (notify req s)
      else if Method req = ''M-SEARCH'' then msearch e req hostPort s
      else Inr s)"

definition parseMessage :: "env \<Rightarrow> string \<Rightarrow> string \<Rightarrow> Ssdp \<Rightarrow> panic + Ssdp" where
  "parseMessage e msg hostPort s =
     (if take 4 msg = ''HTTP'' then Inr (parseResponse e msg hostPort s)
      else
        (case ReadRequest e msg of
           None \<Rightarrow> Inr s
         | Some req \<Rightarrow>
             if Path req \<noteq> ''*'' then Inr s else parseCommand e req hostPort s))"

section \<open>Sequences of calls, and what the specification states\<close>

text \<open>A call of one of the two functions that change the registry.\<close>

datatype call = Advertise AdvertisableServer | Remove string

fun call_step :: "call \<Rightarrow> Ssdp \<Rightarrow> Ssdp" where
  "call_step (Advertise ads) s = AdvertiseServer ads s"
| "call_step (Remove deviceUuid) s = RemoveServer deviceUuid s"

fun run :: "call list \<Rightarrow> Ssdp \<Rightarrow> Ssdp" where
  "run [] s = s"
| "run (c # cs) s = run cs (call_step c s)"

text \<open>
  The comment on \<open>AdvertiseServer\<close> says that it should only be called once per
  server: in such a sequence no call advertises a device UUID that is a key of
  \<open>deviceIdToServer\<close> at that moment.
\<close>

fun oncePerServer :: "call list \<Rightarrow> Ssdp \<Rightarrow> bool" where
  "oncePerServer [] s = True"
| "oncePerServer (Advertise ads # cs) s =
     (map_of (deviceIdToServer s) (DeviceUuid ads) = None
      \<and> oncePerServer cs (AdvertiseServer ads s))"
| "oncePerServer (Remove deviceUuid # cs) s = oncePerServer cs (RemoveServer deviceUuid s)"

text \<open>The advertisements of the two indexes, as the pointers they hold.\<close>

definition inServiceTypes :: "Ssdp \<Rightarrow> nat list" where
  "inServiceTypes s = concat (map snd (advertisableServers s))"

definition inDeviceUuids :: "Ssdp \<Rightarrow> nat list" where
  "inDeviceUuids s = map snd (deviceIdToServer s)"

text \<open>
  The consistency of the registry in the words of the specification: one entry per
  device UUID in each index; an advertisement is in the group of its service type if
  and only if it is in the index of the device UUIDs; the USN of every advertisement
  is made of its device UUID and its service type.
\<close>

definition registryConsistent :: "Ssdp \<Rightarrow> bool" where
  "registryConsistent s \<longleftrightarrow>
     (\<forall>p \<in> set (inServiceTypes s) \<union> set (inDeviceUuids s).
        length (filter (\<lambda>q. DeviceUuid (store s ! q) = DeviceUuid (store s ! p))
                  (inServiceTypes s)) = 1
        \<and> length (filter (\<lambda>q. DeviceUuid (store s ! q) = DeviceUuid (store s ! p))
                    (inDeviceUuids s)) = 1)
     \<and> (\<forall>p < length (store s).
          (\<exists>g. map_of (advertisableServers s) (ServiceType (store s ! p)) = Some g \<and> p \<in> set g)
          \<longleftrightarrow> p \<in> set (inDeviceUuids s))
     \<and> (\<forall>p < length (store s).
          usn (store s ! p)
          = ''uuid:'' @ DeviceUuid (store s ! p) @ ''::'' @ ServiceType (store s ! p))"

text \<open>
  The invariant the two functions keep, from which the consistency follows: the keys
  of each map are distinct, the two indexes hold the same pointers, each once, every
  pointer leads to an object of the store that has the key it is filed under, no group
  is empty, and every object has the USN of its device UUID and service type.
\<close>

definition registry_inv :: "Ssdp \<Rightarrow> bool" where
  "registry_inv s \<longleftrightarrow>
     distinct (map fst (advertisableServers s))
     \<and> distinct (map fst (deviceIdToServer s))
     \<and> distinct (inDeviceUuids s)
     \<and> mset (inServiceTypes s) = mset (inDeviceUuids s)
     \<and> (\<forall>(u, p) \<in> set (deviceIdToServer s).
          p < length (store s) \<and> DeviceUuid (store s ! p) = u)
     \<and> (\<forall>(t, g) \<in> set (advertisableServers s).
          g \<noteq> [] \<and> (\<forall>p \<in> set g. ServiceType (store s ! p) = t))
     \<and> (\<forall>p < length (store s). usn (store s ! p) = usnOf (store s ! p))"

text \<open>
  The matching policy of the search responder in the words of the specification: the
  advertisements that answer a search target.
\<close>

definition matchingPolicy :: "Ssdp \<Rightarrow> string \<Rightarrow> nat list" where
  "matchingPolicy s st =
     (if st = ''ssdp:all'' then inServiceTypes s
      else
        (case map_of (deviceIdToServer s) st of
           Some d \<Rightarrow> [d]
         | None \<Rightarrow>
             (case map_of (advertisableServers s) st of
                Some v \<Rightarrow> v
              | None \<Rightarrow> [])))"

text \<open>
  The messages of the specification: the response to a search for an advertisement,
  the byebye of an advertisement, and the message that ends the writer.
\<close>

definition searchResponse :: "env \<Rightarrow> string \<Rightarrow> AdvertisableServer \<Rightarrow> writeMessage" where
  "searchResponse e addr a =
     \<lparr>message = createSsdpHeader ''200 OK''
                  [(''ST'', ServiceType a),
                   (''USN'', usn a),
                   (''LOCATION'', Location a),
                   (''CACHE-CONTROL'', ''max-age='' @ itoa (MaxAge a)),
                   (''DATE'', now e),
                   (''SERVER'', serverName e),
                   (''EXT'', [])]
                  True,
      to = Some addr, shouldExit = False\<rparr>"

definition byebye :: "string \<Rightarrow> AdvertisableServer \<Rightarrow> writeMessage" where
  "byebye addr a =
     \<lparr>message = createSsdpHeader ''NOTIFY''
                  [(''HOST'', ''239.255.255.250:1900''),
                   (''NT'', ServiceType a),
                   (''NTS'', ''ssdp:byebye''),
                   (''USN'', usn a)]
                  False,
      to = Some addr, shouldExit = False\<rparr>"

definition sentinel :: writeMessage where
  "sentinel = \<lparr>message = [], to = None, shouldExit = True\<rparr>"

text \<open>Both timers of an advertisement are stopped.\<close>

definition timersStopped :: "AdvertisableServer \<Rightarrow> bool" where
  "timersStopped a \<longleftrightarrow> \<not> active (lastTimer a) \<and> \<not> active (last3sTimer a)"

text \<open>An event carries the device id of its own USN.\<close>

fun deviceIdFromUsn :: "event \<Rightarrow> bool" where
  "deviceIdFromUsn (NotifyAlive m) = (DeviceId m = deviceIdOfUsn (Usn m))"
| "deviceIdFromUsn (NotifyBye m) = (ByeDeviceId m = deviceIdOfUsn (ByeUsn m))"
| "deviceIdFromUsn (Response m) = (RespDeviceId m = deviceIdOfUsn (RespUsn m))"

text \<open>An event carries the max-age of the \<open>CACHE-CONTROL\<close> value of its message.\<close>

fun maxAgeFromHeader :: "event \<Rightarrow> bool" where
  "maxAgeFromHeader (NotifyAlive m) =
     (MaxAgeOf m = maxAgeOf (Get (Header (RawRequest m)) ''CACHE-CONTROL''))"
| "maxAgeFromHeader (NotifyBye m) = True"
| "maxAgeFromHeader (Response m) =
     (RespMaxAge m = maxAgeOf (Get (RespHeader (RawResponse m)) ''CACHE-CONTROL''))"

section \<open>Concrete inputs\<close>

definition exEnv :: env where
  "exEnv = \<lparr>GOOS = ''linux'', now = ''Mon, 02 Jan 2006 15:04:05 MST'',
            ResolveUDPAddr = Some, ReadRequest = (\<lambda>m. None), ReadResponse = (\<lambda>m. None),
            createSocket = None\<rparr>"

text \<open>An engine with a listener that has called \<open>ListenFor("urn:a")\<close>.\<close>

definition exListening :: Ssdp where
  "exListening =
     \<lparr>advertisableServers = [], deviceIdToServer = [], store = [], socket = True,
      listener = Some [], listenSearchTargets = [''urn:a'' \<mapsto> True], writeChannel = [],
      isRunning = True, slept = []\<rparr>"

definition exNotifyB :: Request where
  "exNotifyB =
     \<lparr>Method = ''NOTIFY'', Path = ''*'',
      Header = [''NT'' \<mapsto> ''urn:b'', ''NTS'' \<mapsto> ''ssdp:alive'']\<rparr>"

definition exSearchMX3 :: Request where
  "exSearchMX3 =
     \<lparr>Method = ''M-SEARCH'', Path = ''*'',
      Header = [''MAN'' \<mapsto> dquote # ''ssdp:discover'' @ [dquote],
                ''MX'' \<mapsto> ''3'', ''ST'' \<mapsto> ''urn:x'']\<rparr>"

definition exAds :: AdvertisableServer where
  "exAds =
     \<lparr>ServiceType = ''urn:test:svc:1'', DeviceUuid = ''u1'', Location = ''http://h/1'',
      MaxAge = 1800, usn = [], lastTimer = advertiseTimer 0 0 0,
      last3sTimer = advertiseTimer 0 0 0\<rparr>"

definition exSearchQuote :: Request where
  "exSearchQuote =
     \<lparr>Method = ''M-SEARCH'', Path = ''*'',
      Header = [''MAN'' \<mapsto> dquote # ''ssdp:discover'' @ [dquote],
                ''MX'' \<mapsto> ''0'', ''ST'' \<mapsto> [dquote]]\<rparr>"

definition exAlive :: Request where
  "exAlive =
     \<lparr>Method = ''NOTIFY'', Path = ''*'',
      Header = [''NT'' \<mapsto> ''urn:a'', ''NTS'' \<mapsto> ''ssdp:alive'',
                ''USN'' \<mapsto> ''uuid:abc::urn:a'',
                ''CACHE-CONTROL'' \<mapsto> ''no-cache, max-age=1800, private'']\<rparr>"

definition exNew :: Ssdp where
  "exNew =
     \<lparr>advertisableServers = [], deviceIdToServer = [], store = [], socket = True,
      listener = None, listenSearchTargets = Map.empty, writeChannel = [],
      isRunning = True, slept = []\<rparr>"

definition exAds2 :: AdvertisableServer where
  "exAds2 =
     \<lparr>ServiceType = ''urn:test:svc:1'', DeviceUuid = ''u2'', Location = ''http://h/2'',
      MaxAge = 1800, usn = [], lastTimer = advertiseTimer 0 0 0,
      last3sTimer = advertiseTimer 0 0 0\<rparr>"

definition exRegistered :: Ssdp where
  "exRegistered = run [Advertise exAds, Advertise exAds2] exNew"

definition exDuplicate :: Ssdp where
  "exDuplicate = run [Advertise exAds, Advertise exAds] exNew"

definition exSearchAll :: Request where
  "exSearchAll =
     \<lparr>Method = ''M-SEARCH'', Path = ''*'',
      Header = [''MAN'' \<mapsto> dquote # ''ssdp:discover'' @ [dquote],
                ''MX'' \<mapsto> ''0'', ''ST'' \<mapsto> ''ssdp:all'']\<rparr>"

section \<open>Lemmas\<close>

subsection \<open>Split\<close>

lemma Split_no_sep: "sep \<notin> set xs \<Longrightarrow> Split xs sep = [xs]"
  by (induction xs) auto

lemma Split_append_sep:
  "sep \<notin> set xs \<Longrightarrow> Split (xs @ sep # ys) sep = xs # Split ys sep"
  by (induction xs) auto

lemma Split_not_Nil: "Split xs sep \<noteq> []"
  by (induction xs) (auto split: list.splits)

lemma uuid_no_colon: "colon \<notin> set ''uuid''"
  by (simp add: colon_def)

subsection \<open>The search target and the delay\<close>

lemma unquoteST_alt:
  "st \<noteq> [] \<Longrightarrow> unquoteST st =
     (if hd st = dquote \<and> last st = dquote then slice st 1 (int (length st) - 2) else Inr st)"
  by (simp add: unquoteST_def unquoteBounds_def last_conv_nth hd_conv_nth)

lemma unquoteST_plain:
  "st \<noteq> [] \<Longrightarrow> \<not> (hd st = dquote \<and> last st = dquote) \<Longrightarrow> unquoteST st = Inr st"
  by (auto simp: unquoteST_alt)

lemma unquoteST_quoted:
  "3 \<le> length st \<Longrightarrow> hd st = dquote \<Longrightarrow> last st = dquote \<Longrightarrow>
   unquoteST st = Inr (take (length st - 3) (tl st))"
proof -
  assume a: "3 \<le> length st" "hd st = dquote" "last st = dquote"
  then have ne: "st \<noteq> []" by auto
  have "nat (int (length st) - 2 - 1) = length st - 3" using a(1) by linarith
  then show ?thesis using a
    by (simp add: unquoteST_alt [OF ne] slice_def drop_Suc)
qed

lemma ParseInt_3: "ParseInt ''3'' = (3, None)"
  by (simp add: ParseInt_def isDigit_def digitsValue_def digitVal_def intSize_def)

lemma mxOf_parsed: "ParseInt (Get (Header req) ''MX'') = (v, None) \<Longrightarrow> mxOf req = 0"
  by (simp add: mxOf_def Let_def)

lemma mxOf_out_of_range:
  "Get (Header req) ''MX'' = ''99999999999999999999'' \<Longrightarrow>
   mxOf req = 9223372036854775807 \<and> seconds (mxOf req) = - 1000000000"
  by (simp add: mxOf_def ParseInt_def isDigit_def digitsValue_def digitVal_def intSize_def
      seconds_def Second_def)

lemma seconds_0: "seconds 0 = 0"
  by (simp add: seconds_def)

lemma slept_send [simp]: "slept (send m s) = slept s"
  by (simp add: send_def)

lemma slept_respondToMSearch [simp]: "slept (respondToMSearch e d sendTo s) = slept s"
  unfolding respondToMSearch_def Let_def by (cases "ResolveUDPAddr e sendTo") simp_all

lemma slept_respondToGroup [simp]: "slept (respondToGroup e v sendTo s) = slept s"
  by (induction v arbitrary: s) simp_all

lemma slept_respondToAll [simp]: "slept (respondToAll e al sendTo s) = slept s"
  by (induction e al sendTo s rule: respondToAll.induct) simp_all

lemma inMSearch_slept:
  "inMSearch e st req sendTo s = Inr s' \<Longrightarrow> slept s' = slept s @ [seconds (mxOf req)]"
  by (auto simp: inMSearch_def Let_def split: sum.splits option.splits if_splits)

subsection \<open>The listener\<close>

lemma notify_frame_filter:
  "notify req (s\<lparr>listenSearchTargets := f\<rparr>) = (notify req s)\<lparr>listenSearchTargets := f\<rparr>"
  by (simp add: notify_def notifyListener_def Let_def split: option.splits)

subsection \<open>Fields that sending, stopping timers and advertising keep\<close>

lemma isRunning_send [simp]: "isRunning (send m s) = isRunning s"
  by (simp add: send_def)

lemma isRunning_stopTimers [simp]: "isRunning (stopTimers p s) = isRunning s"
  by (simp add: stopTimers_def)

lemma advertiseServer_None:
  "ResolveUDPAddr e multicastAddr = None \<Longrightarrow> advertiseServer e p alive s = s"
  unfolding advertiseServer_def Let_def by simp

lemma advertiseServer_byebye:
  "ResolveUDPAddr e multicastAddr = Some addr \<Longrightarrow>
   advertiseServer e p False s = send (byebye addr (store s ! p)) s"
  unfolding advertiseServer_def Let_def byebye_def multicastAddr_def by simp

lemma isRunning_advertiseServer [simp]: "isRunning (advertiseServer e p alive s) = isRunning s"
  unfolding advertiseServer_def Let_def by (cases "ResolveUDPAddr e multicastAddr") simp_all

lemma isRunning_advertiseClosedLoop [simp]:
  "isRunning (advertiseClosedLoop e al s) = isRunning s"
  by (induction e al s rule: advertiseClosedLoop.induct) simp_all

lemma isRunning_Stop: "isRunning (Stop e s) = False"
  by (simp add: Stop_def Let_def advertiseClosed_def)

subsection \<open>Decimal digits and ParseInt\<close>

lemma isDigit_digitChar: "d < 10 \<Longrightarrow> isDigit (digitChar d)"
  by (simp add: isDigit_def digitChar_def)

lemma digitVal_digitChar: "d < 10 \<Longrightarrow> digitVal (digitChar d) = d"
  by (simp add: digitVal_def digitChar_def)

lemma digitsValue_snoc: "digitsValue (ds @ [c]) = digitsValue ds * 10 + digitVal c"
  by (simp add: digitsValue_def)

lemma utoa_not_Nil: "utoa n \<noteq> []"
  by (subst utoa.simps) simp

lemma utoa_digits: "list_all isDigit (utoa n)"
proof (induction n rule: utoa.induct)
  case (1 n)
  show ?case
  proof (cases "n < 10")
    case True
    then show ?thesis by (subst utoa.simps) (simp add: isDigit_digitChar)
  next
    case False
    with 1 show ?thesis by (subst utoa.simps) (simp add: isDigit_digitChar)
  qed
qed

lemma digitsValue_utoa: "digitsValue (utoa n) = n"
proof (induction n rule: utoa.induct)
  case (1 n)
  show ?case
  proof (cases "n < 10")
    case True
    then show ?thesis
      by (subst utoa.simps) (simp add: digitsValue_def digitVal_digitChar)
  next
    case False
    with 1 have "digitsValue (utoa (n div 10)) = n div 10" by simp
    with False show ?thesis
      by (subst utoa.simps) (simp add: digitsValue_snoc digitVal_digitChar)
  qed
qed

lemma isDigit_not_sign: "isDigit c \<Longrightarrow> c \<noteq> CHR 0x2B \<and> c \<noteq> CHR 0x2D"
  by (auto simp: isDigit_def)

lemma ParseInt_digits:
  assumes "ds \<noteq> []" "list_all isDigit ds"
  shows "ParseInt ds =
           (if 2 ^ 63 \<le> digitsValue ds then (2 ^ 63 - 1, Some ErrRange)
            else (int (digitsValue ds), None))"
proof -
  from assms have "isDigit (hd ds)" by (cases ds) simp_all
  then have "hd ds \<noteq> CHR 0x2B" "hd ds \<noteq> CHR 0x2D" using isDigit_not_sign by blast+
  with assms show ?thesis
    by (simp add: ParseInt_def Let_def intSize_def)
qed

lemma ParseInt_utoa:
  "ParseInt (utoa n) = (if 2 ^ 63 \<le> n then (2 ^ 63 - 1, Some ErrRange) else (int n, None))"
  using ParseInt_digits [OF utoa_not_Nil utoa_digits, of n] by (simp add: digitsValue_utoa)

subsection \<open>The max-age pattern\<close>

lemma maxAgeAt_m: "maxAgeAt (c # cs) \<Longrightarrow> c = CHR ''m''"
  by (simp add: maxAgeAt_def)

lemma lastMaxAge_skip: "CHR ''m'' \<notin> set xs \<Longrightarrow> lastMaxAge (xs @ ys) = lastMaxAge ys"
proof (induction xs)
  case Nil
  show ?case by simp
next
  case (Cons x xs)
  then have "\<not> maxAgeAt (x # xs @ ys)" using maxAgeAt_m by fastforce
  with Cons show ?case by (simp split: option.splits)
qed

lemma lastMaxAge_prefix: "lastMaxAge ys = Some ds \<Longrightarrow> lastMaxAge (xs @ ys) = Some ds"
  by (induction xs) simp_all

lemma isDigit_not_m: "isDigit c \<Longrightarrow> c \<noteq> CHR ''m''"
  by (auto simp: isDigit_def)

lemma digits_no_m: "list_all isDigit ds \<Longrightarrow> CHR ''m'' \<notin> set ds"
  using isDigit_not_m by (auto simp: list_all_iff)

lemma takeWhile_digits:
  "list_all isDigit ds \<Longrightarrow> suf = [] \<or> \<not> isDigit (hd suf) \<Longrightarrow>
   takeWhile isDigit (ds @ suf) = ds"
  by (cases suf) (auto simp: list_all_iff takeWhile_append)

lemma lastMaxAge_here:
  assumes "ds \<noteq> []" "list_all isDigit ds" "suf = [] \<or> \<not> isDigit (hd suf)"
    "lastMaxAge suf = None"
  shows "lastMaxAge (''max-age='' @ ds @ suf) = Some ds"
proof -
  have "CHR ''m'' \<notin> set (''ax-age='' @ ds)"
    using digits_no_m [OF assms(2)] by simp
  then have "lastMaxAge ((''ax-age='' @ ds) @ suf) = None"
    using lastMaxAge_skip assms(4) by metis
  then have t: "lastMaxAge (''ax-age='' @ ds @ suf) = None" by simp
  have "isDigit (hd ds)" using assms(1,2) by (cases ds) simp_all
  then have m: "maxAgeAt (''max-age='' @ ds @ suf)"
    using assms(1) by (cases ds) (simp_all add: maxAgeAt_def)
  have "lastMaxAge (CHR ''m'' # ''ax-age='' @ ds @ suf) = Some (takeWhile isDigit (ds @ suf))"
    using t m by simp
  then show ?thesis
    using takeWhile_digits [OF assms(2,3)] by simp
qed

lemma FindStringSubmatch_one_line:
  "newline \<notin> set cc \<Longrightarrow> lastMaxAge cc = Some ds \<Longrightarrow> FindStringSubmatch cc = [cc, ds]"
  by (simp add: FindStringSubmatch_def Split_no_sep)

lemma firstLineMatch_none:
  "\<forall>l \<in> set ls. lastMaxAge l = None \<Longrightarrow> firstLineMatch ls = []"
  by (induction ls) simp_all

lemma maxAgeOf_no_match:
  "\<forall>l \<in> set (Split cc newline). lastMaxAge l = None \<Longrightarrow> maxAgeOf cc = - 1"
  by (simp add: maxAgeOf_def FindStringSubmatch_def firstLineMatch_none)

lemma maxAgeOf_contains:
  assumes "newline \<notin> set pre" "newline \<notin> set suf" "lastMaxAge suf = None"
    "suf = [] \<or> \<not> isDigit (hd suf)"
  shows "maxAgeOf (pre @ ''max-age='' @ utoa n @ suf) = (if 2 ^ 63 \<le> n then - 1 else int n)"
proof -
  let ?cc = "pre @ ''max-age='' @ utoa n @ suf"
  have d: "newline \<notin> set (utoa n)"
    using utoa_digits [of n] by (auto simp: list_all_iff isDigit_def newline_def)
  have nl: "newline \<notin> set ?cc" using assms(1,2) d by (simp add: newline_def)
  have "lastMaxAge (''max-age='' @ utoa n @ suf) = Some (utoa n)"
    using lastMaxAge_here [OF utoa_not_Nil utoa_digits assms(4,3)] .
  then have "lastMaxAge ?cc = Some (utoa n)" by (rule lastMaxAge_prefix)
  then have "FindStringSubmatch ?cc = [?cc, utoa n]"
    using nl by (rule FindStringSubmatch_one_line [rotated])
  then show ?thesis
    by (simp add: maxAgeOf_def ParseInt_utoa)
qed

lemma digitChar_values:
  "digitChar 0 = CHR ''0''" "digitChar 1 = CHR ''1''" "digitChar (Suc 0) = CHR ''1''"
  "digitChar 2 = CHR ''2''" "digitChar 3 = CHR ''3''" "digitChar 4 = CHR ''4''"
  "digitChar 5 = CHR ''5''" "digitChar 6 = CHR ''6''" "digitChar 7 = CHR ''7''"
  "digitChar 8 = CHR ''8''" "digitChar 9 = CHR ''9''"
  by (simp_all add: digitChar_def char_of_def bit_0)

lemma utoa_2_63: "utoa 9223372036854775808 = ''9223372036854775808''"
  by (simp add: utoa.simps digitChar_values)

lemma utoa_1800: "utoa 1800 = ''1800''"
  by (simp add: utoa.simps digitChar_values)

lemma lastMaxAge_abc: "lastMaxAge ''max-age=abc'' = None"
proof -
  have "lastMaxAge (''ax-age=abc'' @ []) = lastMaxAge []"
    by (rule lastMaxAge_skip) simp
  then have "lastMaxAge ''ax-age=abc'' = None" by simp
  moreover have "\<not> maxAgeAt ''max-age=abc''"
    by (simp add: maxAgeAt_def isDigit_def)
  ultimately show ?thesis
    using lastMaxAge.simps(2) [of "CHR ''m''" "''ax-age=abc''"] by simp
qed

lemma maxAgeOf_abc: "maxAgeOf ''max-age=abc'' = - 1"
proof (rule maxAgeOf_no_match)
  have "Split ''max-age=abc'' newline = [''max-age=abc'']"
    by (rule Split_no_sep) (simp add: newline_def)
  then show "\<forall>l \<in> set (Split ''max-age=abc'' newline). lastMaxAge l = None"
    using lastMaxAge_abc by (simp del: lastMaxAge.simps)
qed

lemma lastMaxAge_private: "lastMaxAge '', private'' = None"
proof -
  have "lastMaxAge ('', private'' @ []) = lastMaxAge []"
    by (rule lastMaxAge_skip) simp
  then show ?thesis by simp
qed

subsection \<open>The events of a message\<close>

lemma notify_events:
  "listener s = Some evs \<Longrightarrow>
   \<exists>new. listener (notify req s) = Some (evs @ new)
         \<and> list_all maxAgeFromHeader new \<and> list_all deviceIdFromUsn new"
  by (simp add: notify_def notifyListener_def Let_def)

lemma parseResponse_events:
  "listener s = Some evs \<Longrightarrow>
   \<exists>new. listener (parseResponse e msg hostPort s) = Some (evs @ new)
         \<and> list_all maxAgeFromHeader new \<and> list_all deviceIdFromUsn new"
  by (cases "ReadResponse e msg") (simp_all add: parseResponse_def notifyListener_def Let_def)

subsection \<open>Association lists and lists\<close>

lemma update_absent: "map_of al k = None \<Longrightarrow> AList.update k v al = al @ [(k, v)]"
  by (induction al) (auto split: if_splits)

lemma set_update_subset: "set (AList.update k v al) \<subseteq> insert (k, v) (set al)"
  by (induction al) auto

lemma set_delete_subset: "set (AList.delete k al) \<subseteq> set al"
  by (auto simp: AList.delete_eq)

lemma mset_concat_update_present:
  "distinct (map fst al) \<Longrightarrow> map_of al k = Some g \<Longrightarrow>
   mset (concat (map snd (AList.update k g' al))) + mset g
   = mset (concat (map snd al)) + mset g'"
proof (induction al)
  case Nil
  then show ?case by simp
next
  case (Cons a al)
  obtain k' v' where a: "a = (k', v')" by (cases a)
  show ?case
  proof (cases "k' = k")
    case True
    with Cons.prems a show ?thesis by simp
  next
    case False
    with Cons a show ?thesis by simp
  qed
qed

lemma mset_concat_update_absent:
  "map_of al k = None \<Longrightarrow>
   mset (concat (map snd (AList.update k g' al))) = mset (concat (map snd al)) + mset g'"
  by (simp add: update_absent)

lemma mset_concat_delete:
  "distinct (map fst al) \<Longrightarrow> map_of al k = Some g \<Longrightarrow>
   mset (concat (map snd (AList.delete k al))) + mset g = mset (concat (map snd al))"
proof (induction al)
  case Nil
  then show ?case by simp
next
  case (Cons a al)
  obtain k' v' where a: "a = (k', v')" by (cases a)
  show ?case
  proof (cases "k' = k")
    case True
    with Cons.prems a have "k \<notin> fst ` set al" "v' = g" by auto
    then have "AList.delete k al = al"
      by (force simp: AList.delete_eq filter_id_conv)
    with True a \<open>v' = g\<close> show ?thesis by (simp add: AList.delete_eq)
  next
    case False
    with Cons a show ?thesis by (simp add: AList.delete_eq)
  qed
qed

lemma mset_snd_delete:
  "distinct (map fst al) \<Longrightarrow> map_of al k = Some p \<Longrightarrow>
   mset (map snd (AList.delete k al)) + {#p#} = mset (map snd al)"
proof (induction al)
  case Nil
  then show ?case by simp
next
  case (Cons a al)
  obtain k' v' where a: "a = (k', v')" by (cases a)
  show ?case
  proof (cases "k' = k")
    case True
    with Cons.prems a have "k \<notin> fst ` set al" "v' = p" by auto
    then have "AList.delete k al = al"
      by (force simp: AList.delete_eq filter_id_conv)
    with True a \<open>v' = p\<close> show ?thesis by (simp add: AList.delete_eq)
  next
    case False
    with Cons a show ?thesis by (simp add: AList.delete_eq)
  qed
qed

lemma distinct_snd_delete:
  "distinct (map snd al) \<Longrightarrow> distinct (map snd (AList.delete k al))"
  by (simp add: AList.delete_eq distinct_map_filter)

lemma firstIndex_Some:
  "firstIndex P ps = Some i \<Longrightarrow> i < length ps \<and> P (ps ! i)"
proof (induction ps arbitrary: i)
  case Nil
  then show ?case by simp
next
  case (Cons p ps)
  then show ?case by (cases "P p") (auto split: option.splits)
qed

lemma firstIndex_None: "firstIndex P ps = None \<Longrightarrow> \<forall>p \<in> set ps. \<not> P p"
  by (induction ps) (auto split: if_splits option.splits)

lemma mset_remove_nth:
  "i < length xs \<Longrightarrow> mset (take i xs @ drop (i + 1) xs) + {#xs ! i#} = mset xs"
proof -
  assume "i < length xs"
  then have "xs = take i xs @ xs ! i # drop (Suc i) xs" by (simp add: id_take_nth_drop)
  then have "mset xs = mset (take i xs @ xs ! i # drop (Suc i) xs)" by simp
  then show ?thesis by simp
qed

lemma set_remove_nth: "set (take i xs @ drop (i + 1) xs) \<subseteq> set xs"
  by (auto dest: in_set_takeD in_set_dropD)

subsection \<open>stopTimers\<close>

lemma nth_update_same_field:
  assumes "\<And>x. f (g x) = f x"
  shows "f ((xs[p := g (xs ! p)]) ! q) = f (xs ! q)"
proof (cases "p < length xs \<and> q = p")
  case True
  then show ?thesis using assms by simp
next
  case False
  then have "(xs[p := g (xs ! p)]) ! q = xs ! q"
    by (cases "p < length xs") (auto simp: list_update_beyond not_less)
  then show ?thesis by simp
qed

lemma store_stopTimers: "store (stopTimers p s) = (store s)[p := stopBoth (store s ! p)]"
  by (simp add: stopTimers_def)

lemma stopTimers_maps [simp]:
  "advertisableServers (stopTimers p s) = advertisableServers s"
  "deviceIdToServer (stopTimers p s) = deviceIdToServer s"
  "writeChannel (stopTimers p s) = writeChannel s"
  "socket (stopTimers p s) = socket s"
  "listener (stopTimers p s) = listener s"
  "listenSearchTargets (stopTimers p s) = listenSearchTargets s"
  "slept (stopTimers p s) = slept s"
  "length (store (stopTimers p s)) = length (store s)"
  by (simp_all add: stopTimers_def)

lemma stopTimers_fields [simp]:
  "ServiceType (store (stopTimers p s) ! q) = ServiceType (store s ! q)"
  "DeviceUuid (store (stopTimers p s) ! q) = DeviceUuid (store s ! q)"
  "Location (store (stopTimers p s) ! q) = Location (store s ! q)"
  "MaxAge (store (stopTimers p s) ! q) = MaxAge (store s ! q)"
  "usn (store (stopTimers p s) ! q) = usn (store s ! q)"
  unfolding store_stopTimers
  by (rule nth_update_same_field, simp add: stopBoth_def)+

lemma stopTimers_usnOf [simp]: "usnOf (store (stopTimers p s) ! q) = usnOf (store s ! q)"
  by (simp add: usnOf_def)

lemma stopTimers_byebye [simp]:
  "byebye addr (store (stopTimers p s) ! q) = byebye addr (store s ! q)"
  by (simp add: byebye_def)

lemma stopTimers_indexes [simp]:
  "inServiceTypes (stopTimers p s) = inServiceTypes s"
  "inDeviceUuids (stopTimers p s) = inDeviceUuids s"
  by (simp_all add: inServiceTypes_def inDeviceUuids_def)

lemma registry_inv_stopTimers [simp]: "registry_inv (stopTimers p s) = registry_inv s"
  by (simp add: registry_inv_def)

lemma timersStopped_stopBoth [simp]: "timersStopped (stopBoth a)"
  by (simp add: timersStopped_def stopBoth_def Timer_Stop_def)

lemma timersStopped_stopTimers_same:
  "p < length (store s) \<Longrightarrow> timersStopped (store (stopTimers p s) ! p)"
  by (simp add: store_stopTimers)

lemma timersStopped_stopTimers_kept:
  "timersStopped (store s ! q) \<Longrightarrow> timersStopped (store (stopTimers p s) ! q)"
  by (cases "p < length (store s)"; cases "q = p")
     (simp_all add: store_stopTimers list_update_beyond not_less)

subsection \<open>send\<close>

lemma send_fields [simp]:
  "advertisableServers (send m s) = advertisableServers s"
  "deviceIdToServer (send m s) = deviceIdToServer s"
  "store (send m s) = store s"
  "socket (send m s) = socket s"
  "listener (send m s) = listener s"
  "listenSearchTargets (send m s) = listenSearchTargets s"
  "writeChannel (send m s) = writeChannel s @ [m]"
  by (simp_all add: send_def)

subsection \<open>What AdvertiseServer and RemoveServer leave in each field\<close>

lemma AdvertiseServer_store:
  "isRunning s \<Longrightarrow>
   store (AdvertiseServer ads s)
   = store s @ [ads\<lparr>usn := usnOf ads,
                     lastTimer := advertiseTimer (length (store s)) 1 (MaxAge ads),
                     last3sTimer := advertiseTimer (length (store s)) 3 (MaxAge ads)\<rparr>]"
  by (simp add: AdvertiseServer_def Let_def)

lemma AdvertiseServer_deviceIdToServer:
  "isRunning s \<Longrightarrow>
   deviceIdToServer (AdvertiseServer ads s)
   = AList.update (DeviceUuid ads) (length (store s)) (deviceIdToServer s)"
  by (simp add: AdvertiseServer_def Let_def)

lemma AdvertiseServer_advertisableServers:
  "isRunning s \<Longrightarrow>
   advertisableServers (AdvertiseServer ads s)
   = AList.update (ServiceType ads)
       ((case map_of (advertisableServers s) (ServiceType ads) of None \<Rightarrow> [] | Some v \<Rightarrow> v)
        @ [length (store s)])
       (advertisableServers s)"
  by (cases "map_of (advertisableServers s) (ServiceType ads)")
     (simp_all add: AdvertiseServer_def Let_def)

lemma RemoveServer_absent:
  "map_of (deviceIdToServer s) u = None \<Longrightarrow> RemoveServer u s = s"
  by (simp add: RemoveServer_def)

lemma RemoveServer_store:
  "isRunning s \<Longrightarrow> map_of (deviceIdToServer s) u = Some p \<Longrightarrow>
   store (RemoveServer u s) = store (stopTimers p s)"
  unfolding RemoveServer_def Let_def
  by (cases "map_of (advertisableServers s) (ServiceType (store s ! p))";
      cases "firstIndex (\<lambda>q. DeviceUuid (store s ! q) = DeviceUuid (store s ! p))
               (the (map_of (advertisableServers s) (ServiceType (store s ! p))))")
     simp_all

lemma RemoveServer_deviceIdToServer:
  "isRunning s \<Longrightarrow> map_of (deviceIdToServer s) u = Some p \<Longrightarrow>
   deviceIdToServer (RemoveServer u s) = AList.delete u (deviceIdToServer s)"
  unfolding RemoveServer_def Let_def
  by (cases "map_of (advertisableServers s) (ServiceType (store s ! p))";
      cases "firstIndex (\<lambda>q. DeviceUuid (store s ! q) = DeviceUuid (store s ! p))
               (the (map_of (advertisableServers s) (ServiceType (store s ! p))))")
     simp_all

lemma RemoveServer_advertisableServers:
  "isRunning s \<Longrightarrow> map_of (deviceIdToServer s) u = Some p \<Longrightarrow>
   advertisableServers (RemoveServer u s)
   = (case map_of (advertisableServers s) (ServiceType (store s ! p)) of
        None \<Rightarrow> advertisableServers s
      | Some g \<Rightarrow>
          if length g = 1
          then AList.delete (ServiceType (store s ! p)) (advertisableServers s)
          else (case firstIndex (\<lambda>q. DeviceUuid (store s ! q) = DeviceUuid (store s ! p)) g of
                  None \<Rightarrow> advertisableServers s
                | Some i \<Rightarrow>
                    AList.update (ServiceType (store s ! p)) (take i g @ drop (i + 1) g)
                      (advertisableServers s)))"
  unfolding RemoveServer_def Let_def
  by (cases "map_of (advertisableServers s) (ServiceType (store s ! p))";
      cases "firstIndex (\<lambda>q. DeviceUuid (store s ! q) = DeviceUuid (store s ! p))
               (the (map_of (advertisableServers s) (ServiceType (store s ! p))))")
     simp_all

subsection \<open>The invariant of the registry\<close>

lemma registry_invI:
  assumes "distinct (map fst (advertisableServers s))"
    and "distinct (map fst (deviceIdToServer s))"
    and "distinct (inDeviceUuids s)"
    and "mset (inServiceTypes s) = mset (inDeviceUuids s)"
    and "\<And>u p. (u, p) \<in> set (deviceIdToServer s) \<Longrightarrow>
           p < length (store s) \<and> DeviceUuid (store s ! p) = u"
    and "\<And>t g. (t, g) \<in> set (advertisableServers s) \<Longrightarrow>
           g \<noteq> [] \<and> (\<forall>p \<in> set g. ServiceType (store s ! p) = t)"
    and "\<And>p. p < length (store s) \<Longrightarrow> usn (store s ! p) = usnOf (store s ! p)"
  shows "registry_inv s"
  using assms unfolding registry_inv_def by blast

lemma registry_invD:
  assumes "registry_inv s"
  shows "distinct (map fst (advertisableServers s))"
    and "distinct (map fst (deviceIdToServer s))"
    and "distinct (inDeviceUuids s)"
    and "mset (inServiceTypes s) = mset (inDeviceUuids s)"
    and "\<And>u p. (u, p) \<in> set (deviceIdToServer s) \<Longrightarrow>
           p < length (store s) \<and> DeviceUuid (store s ! p) = u"
    and "\<And>t g. (t, g) \<in> set (advertisableServers s) \<Longrightarrow>
           g \<noteq> [] \<and> (\<forall>p \<in> set g. ServiceType (store s ! p) = t)"
    and "\<And>p. p < length (store s) \<Longrightarrow> usn (store s ! p) = usnOf (store s ! p)"
  using assms unfolding registry_inv_def by blast+

lemma in_inDeviceUuids:
  "p \<in> set (inDeviceUuids s) \<longleftrightarrow> (\<exists>u. (u, p) \<in> set (deviceIdToServer s))"
  by (force simp: inDeviceUuids_def)

lemma in_inServiceTypes:
  "p \<in> set (inServiceTypes s) \<longleftrightarrow> (\<exists>t g. (t, g) \<in> set (advertisableServers s) \<and> p \<in> set g)"
  by (force simp: inServiceTypes_def)

lemma registry_inv_same_set:
  "registry_inv s \<Longrightarrow> set (inServiceTypes s) = set (inDeviceUuids s)"
  using registry_invD(4) mset_eq_setD by blast

lemma registry_inv_bound:
  assumes "registry_inv s" "p \<in> set (inServiceTypes s)"
  shows "p < length (store s)"
proof -
  from assms have "p \<in> set (inDeviceUuids s)" using registry_inv_same_set by blast
  then obtain u where "(u, p) \<in> set (deviceIdToServer s)" using in_inDeviceUuids by blast
  then show ?thesis using registry_invD(5) [OF assms(1)] by blast
qed

lemma usnOf_update [simp]:
  "usnOf (ads\<lparr>usn := x, lastTimer := y, last3sTimer := z\<rparr>) = usnOf ads"
  by (simp add: usnOf_def)

lemma registry_inv_AdvertiseServer:
  assumes inv: "registry_inv s"
    and fresh: "map_of (deviceIdToServer s) (DeviceUuid ads) = None"
  shows "registry_inv (AdvertiseServer ads s)"
proof (cases "isRunning s")
  case False
  then show ?thesis using inv by (simp add: AdvertiseServer_def)
next
  case True
  define n where "n = length (store s)"
  define obj where "obj = ads\<lparr>usn := usnOf ads,
                     lastTimer := advertiseTimer n 1 (MaxAge ads),
                     last3sTimer := advertiseTimer n 3 (MaxAge ads)\<rparr>"
  define v where
    "v = (case map_of (advertisableServers s) (ServiceType ads) of None \<Rightarrow> [] | Some v \<Rightarrow> v)"
  let ?s' = "AdvertiseServer ads s"
  note d = registry_invD [OF inv]
  have st: "store ?s' = store s @ [obj]"
    using AdvertiseServer_store [OF True] by (simp add: n_def obj_def)
  have dv: "deviceIdToServer ?s' = deviceIdToServer s @ [(DeviceUuid ads, n)]"
    using AdvertiseServer_deviceIdToServer [OF True] fresh by (simp add: n_def update_absent)
  have bk: "advertisableServers ?s'
            = AList.update (ServiceType ads) (v @ [n]) (advertisableServers s)"
    using AdvertiseServer_advertisableServers [OF True] by (simp add: n_def v_def)
  have bound_dev: "p < n" if "(u, p) \<in> set (deviceIdToServer s)" for u p
    using d(5) [OF that] by (simp add: n_def)
  have bound_bk: "p < n" if "(t, g) \<in> set (advertisableServers s)" "p \<in> set g" for t g p
    using registry_inv_bound [OF inv] in_inServiceTypes that by (auto simp: n_def)
  have old: "store ?s' ! p = store s ! p" if "p < n" for p
    using that by (simp add: st n_def nth_append)
  have new: "store ?s' ! n = obj"
    by (simp add: st n_def)
  have v_in: "(ServiceType ads, v) \<in> set (advertisableServers s)" if "v \<noteq> []"
  proof (cases "map_of (advertisableServers s) (ServiceType ads)")
    case None
    then show ?thesis using that by (simp add: v_def)
  next
    case (Some g)
    then show ?thesis by (simp add: v_def map_of_SomeD)
  qed
  show ?thesis
  proof (rule registry_invI)
    show "distinct (map fst (advertisableServers ?s'))"
      using d(1) by (simp add: bk distinct_update)
    show "distinct (map fst (deviceIdToServer ?s'))"
      using d(2) fresh by (simp add: dv map_of_eq_None_iff)
    have "n \<notin> set (inDeviceUuids s)"
      using bound_dev in_inDeviceUuids by blast
    then show "distinct (inDeviceUuids ?s')"
      using d(3) by (simp add: inDeviceUuids_def dv)
    have "mset (inServiceTypes ?s') = mset (inServiceTypes s) + {#n#}"
    proof (cases "map_of (advertisableServers s) (ServiceType ads)")
      case None
      then show ?thesis
        using mset_concat_update_absent [OF None, of "[n]"]
        by (simp add: inServiceTypes_def bk v_def)
    next
      case (Some g)
      then show ?thesis
        using mset_concat_update_present [OF d(1) Some, of "g @ [n]"]
        by (simp add: inServiceTypes_def bk v_def)
    qed
    then show "mset (inServiceTypes ?s') = mset (inDeviceUuids ?s')"
      using d(4) by (simp add: inDeviceUuids_def dv)
    show "p < length (store ?s') \<and> DeviceUuid (store ?s' ! p) = u"
      if "(u, p) \<in> set (deviceIdToServer ?s')" for u p
    proof (cases "(u, p) \<in> set (deviceIdToServer s)")
      case True
      then show ?thesis using d(5) [OF True] old [OF bound_dev [OF True]] by (simp add: st)
    next
      case False
      with that have "u = DeviceUuid ads" "p = n" by (simp_all add: dv)
      then show ?thesis using new by (simp add: st n_def obj_def)
    qed
    show "g \<noteq> [] \<and> (\<forall>p \<in> set g. ServiceType (store ?s' ! p) = t)"
      if "(t, g) \<in> set (advertisableServers ?s')" for t g
    proof (cases "(t, g) \<in> set (advertisableServers s)")
      case True
      then show ?thesis using d(6) [OF True] old bound_bk [OF True] by simp
    next
      case False
      with that set_update_subset [of "ServiceType ads" "v @ [n]" "advertisableServers s"]
      have tg: "t = ServiceType ads" "g = v @ [n]" by (auto simp: bk)
      have "ServiceType (store ?s' ! p) = ServiceType ads" if "p \<in> set v" for p
      proof -
        from that have in_v: "(ServiceType ads, v) \<in> set (advertisableServers s)"
          using v_in by fastforce
        then show ?thesis
          using d(6) [OF in_v] old [OF bound_bk [OF in_v that]] that by simp
      qed
      moreover have "ServiceType (store ?s' ! n) = ServiceType ads"
        by (simp add: new obj_def)
      ultimately show ?thesis using tg by auto
    qed
    show "usn (store ?s' ! p) = usnOf (store ?s' ! p)" if "p < length (store ?s')" for p
    proof (cases "p < n")
      case True
      then show ?thesis using d(7) old by (simp add: n_def)
    next
      case False
      with that have "p = n" by (simp add: st n_def)
      then show ?thesis by (simp add: new obj_def)
    qed
  qed
qed

lemma registry_inv_RemoveServer:
  assumes inv: "registry_inv s"
  shows "registry_inv (RemoveServer u s)"
proof (cases "isRunning s")
  case False
  then show ?thesis using inv by (simp add: RemoveServer_def)
next
  case run: True
  show ?thesis
  proof (cases "map_of (deviceIdToServer s) u")
    case None
    then show ?thesis using inv by (simp add: RemoveServer_absent)
  next
    case (Some p)
    let ?s' = "RemoveServer u s"
    let ?T = "ServiceType (store s ! p)"
    let ?P = "\<lambda>q. DeviceUuid (store s ! q) = DeviceUuid (store s ! p)"
    note d = registry_invD [OF inv]
    have up: "(u, p) \<in> set (deviceIdToServer s)" using Some by (rule map_of_SomeD)
    have p_uuid: "DeviceUuid (store s ! p) = u" using d(5) [OF up] by simp
    have "p \<in> set (inServiceTypes s)"
      using up registry_inv_same_set [OF inv] in_inDeviceUuids by blast
    then obtain t g where tg: "(t, g) \<in> set (advertisableServers s)" "p \<in> set g"
      using in_inServiceTypes by blast
    then have "t = ?T" using d(6) [of t g] by simp
    with tg have g_in: "(?T, g) \<in> set (advertisableServers s)" by simp
    then have g_map: "map_of (advertisableServers s) ?T = Some g"
      using d(1) by simp
    have uniq: "q = p" if "q \<in> set g" "?P q" for q
    proof -
      from that(1) g_in have "q \<in> set (inDeviceUuids s)"
        using registry_inv_same_set [OF inv] in_inServiceTypes by blast
      then obtain u' where u': "(u', q) \<in> set (deviceIdToServer s)"
        using in_inDeviceUuids by blast
      then have "u' = u" using d(5) [OF u'] that(2) p_uuid by simp
      with u' have "map_of (deviceIdToServer s) u = Some q" using d(2) by simp
      with Some show ?thesis by simp
    qed
    have st: "store ?s' = store (stopTimers p s)"
      using RemoveServer_store [OF run Some] .
    have dv: "deviceIdToServer ?s' = AList.delete u (deviceIdToServer s)"
      using RemoveServer_deviceIdToServer [OF run Some] .
    have mdev: "mset (inDeviceUuids ?s') + {#p#} = mset (inDeviceUuids s)"
      using mset_snd_delete [OF d(2) Some] by (simp add: inDeviceUuids_def dv)
    have bk: "distinct (map fst (advertisableServers ?s'))
              \<and> mset (inServiceTypes ?s') + {#p#} = mset (inServiceTypes s)
              \<and> (\<forall>(t, g') \<in> set (advertisableServers ?s').
                    g' \<noteq> [] \<and> (\<forall>q \<in> set g'. ServiceType (store s ! q) = t))"
    proof (cases "length g = 1")
      case True
      with tg(2) have g: "g = [p]" by (cases g) auto
      have b: "advertisableServers ?s' = AList.delete ?T (advertisableServers s)"
        using RemoveServer_advertisableServers [OF run Some] g_map True by simp
      have "mset (inServiceTypes ?s') + mset g = mset (inServiceTypes s)"
        using mset_concat_delete [OF d(1) g_map] by (simp add: inServiceTypes_def b)
      moreover have "distinct (map fst (advertisableServers ?s'))"
        using d(1) by (simp add: b distinct_delete)
      moreover have "\<forall>(t, g') \<in> set (advertisableServers ?s').
                    g' \<noteq> [] \<and> (\<forall>q \<in> set g'. ServiceType (store s ! q) = t)"
        using d(6) set_delete_subset [of ?T "advertisableServers s"] by (auto simp: b)
      ultimately show ?thesis using g by simp
    next
      case False
      have "firstIndex ?P g \<noteq> None"
        using firstIndex_None [of ?P g] tg(2) by auto
      then obtain i where i: "firstIndex ?P g = Some i" by blast
      then have ilen: "i < length g" and "?P (g ! i)"
        using firstIndex_Some by blast+
      then have gi: "g ! i = p" using uniq by simp
      let ?g' = "take i g @ drop (i + 1) g"
      have b: "advertisableServers ?s' = AList.update ?T ?g' (advertisableServers s)"
        using RemoveServer_advertisableServers [OF run Some] g_map False i by simp
      have m1: "mset (inServiceTypes ?s') + mset g = mset (inServiceTypes s) + mset ?g'"
        using mset_concat_update_present [OF d(1) g_map, of ?g']
        by (simp add: inServiceTypes_def b)
      have m2: "mset ?g' + {#p#} = mset g"
        using mset_remove_nth [OF ilen] gi by simp
      have "mset (inServiceTypes ?s') + {#p#} + mset ?g' = mset (inServiceTypes s) + mset ?g'"
        using m1 m2 by (metis add.assoc add.commute)
      then have m: "mset (inServiceTypes ?s') + {#p#} = mset (inServiceTypes s)"
        by simp
      have "length g \<noteq> 0" using tg(2) by auto
      with False have "2 \<le> length g" by linarith
      then have ne: "?g' \<noteq> []" using ilen by (auto simp: not_less)
      have sub: "set ?g' \<subseteq> set g" by (rule set_remove_nth)
      have "g' \<noteq> [] \<and> (\<forall>q \<in> set g'. ServiceType (store s ! q) = t)"
        if "(t, g') \<in> set (advertisableServers ?s')" for t g'
      proof (cases "(t, g') \<in> set (advertisableServers s)")
        case True
        then show ?thesis using d(6) by blast
      next
        case False
        with that set_update_subset [of ?T ?g' "advertisableServers s"]
        have "t = ?T" "g' = ?g'" by (auto simp: b)
        then show ?thesis using ne sub d(6) [OF g_in] by blast
      qed
      moreover have "distinct (map fst (advertisableServers ?s'))"
        using d(1) by (simp add: b distinct_update)
      ultimately show ?thesis using m by blast
    qed
    show ?thesis
    proof (rule registry_invI)
      show "distinct (map fst (advertisableServers ?s'))" using bk by blast
      show "distinct (map fst (deviceIdToServer ?s'))"
        using d(2) by (simp add: dv distinct_delete)
      show "distinct (inDeviceUuids ?s')"
        using d(3) by (simp add: inDeviceUuids_def dv distinct_snd_delete)
      have "mset (inServiceTypes ?s') + {#p#} = mset (inDeviceUuids ?s') + {#p#}"
        using bk mdev d(4) by simp
      then show "mset (inServiceTypes ?s') = mset (inDeviceUuids ?s')" by simp
      show "q < length (store ?s') \<and> DeviceUuid (store ?s' ! q) = u'"
        if "(u', q) \<in> set (deviceIdToServer ?s')" for u' q
      proof -
        from that have "(u', q) \<in> set (deviceIdToServer s)"
          using set_delete_subset [of u "deviceIdToServer s"] by (auto simp: dv)
        then show ?thesis using d(5) by (simp add: st)
      qed
      show "g' \<noteq> [] \<and> (\<forall>q \<in> set g'. ServiceType (store ?s' ! q) = t)"
        if "(t, g') \<in> set (advertisableServers ?s')" for t g'
        using bk that by (auto simp: st)
      show "usn (store ?s' ! q) = usnOf (store ?s' ! q)" if "q < length (store ?s')" for q
        using that d(7) by (simp add: st)
    qed
  qed
qed

lemma registry_inv_run:
  "registry_inv s \<Longrightarrow> oncePerServer cs s \<Longrightarrow> registry_inv (run cs s)"
proof (induction cs arbitrary: s)
  case Nil
  then show ?case by simp
next
  case (Cons c cs)
  show ?case
  proof (cases c)
    case (Advertise ads)
    with Cons.prems have "registry_inv (AdvertiseServer ads s)"
      "oncePerServer cs (AdvertiseServer ads s)"
      by (simp_all add: registry_inv_AdvertiseServer)
    then show ?thesis using Cons.IH Advertise by simp
  next
    case (Remove u)
    with Cons.prems have "registry_inv (RemoveServer u s)" "oncePerServer cs (RemoveServer u s)"
      by (simp_all add: registry_inv_RemoveServer)
    then show ?thesis using Cons.IH Remove by simp
  qed
qed

lemma registry_inv_NewSsdp: "NewSsdp e l = Inr s \<Longrightarrow> registry_inv s"
  by (cases "createSocket e")
     (auto simp: NewSsdp_def registry_inv_def inServiceTypes_def inDeviceUuids_def)

lemma length_filter_same_key:
  assumes "distinct L" "inj_on f (set L)" "p \<in> set L"
  shows "length (filter (\<lambda>q. f q = f p) L) = 1"
proof -
  have "{q. f q = f p} \<inter> set L = {p}"
    using assms(2,3) by (auto dest: inj_onD)
  then show ?thesis
    using distinct_length_filter [OF assms(1), of "\<lambda>q. f q = f p"] by simp
qed

lemma length_filter_mset_eq:
  "mset xs = mset ys \<Longrightarrow> length (filter P xs) = length (filter P ys)"
proof -
  assume "mset xs = mset ys"
  then have "filter_mset P (mset xs) = filter_mset P (mset ys)" by simp
  then have "mset (filter P xs) = mset (filter P ys)" by simp
  then show ?thesis by (rule mset_eq_length)
qed

lemma registry_inv_consistent:
  assumes inv: "registry_inv s"
  shows "registryConsistent s"
proof -
  note d = registry_invD [OF inv]
  let ?f = "\<lambda>q. DeviceUuid (store s ! q)"
  have same: "set (inServiceTypes s) = set (inDeviceUuids s)"
    using registry_inv_same_set [OF inv] .
  have inj: "inj_on ?f (set (inDeviceUuids s))"
  proof (rule inj_onI)
    fix p q
    assume "p \<in> set (inDeviceUuids s)" "q \<in> set (inDeviceUuids s)" and eq: "?f p = ?f q"
    then obtain u u' where u: "(u, p) \<in> set (deviceIdToServer s)"
      and u': "(u', q) \<in> set (deviceIdToServer s)"
      using in_inDeviceUuids by blast
    then have "u = u'" using d(5) [OF u] d(5) [OF u'] eq by simp
    then have "map_of (deviceIdToServer s) u = Some p" "map_of (deviceIdToServer s) u = Some q"
      using map_of_is_SomeI [OF d(2)] u u' by blast+
    then show "p = q" by simp
  qed
  have a: "length (filter (\<lambda>q. ?f q = ?f p) (inServiceTypes s)) = 1
           \<and> length (filter (\<lambda>q. ?f q = ?f p) (inDeviceUuids s)) = 1"
    if "p \<in> set (inServiceTypes s) \<union> set (inDeviceUuids s)" for p
  proof -
    from that same have "p \<in> set (inDeviceUuids s)" by simp
    then have "length (filter (\<lambda>q. ?f q = ?f p) (inDeviceUuids s)) = 1"
      using length_filter_same_key [OF d(3) inj] by blast
    then show ?thesis
      using length_filter_mset_eq [OF d(4), of "\<lambda>q. ?f q = ?f p"] by simp
  qed
  have b: "(\<exists>g. map_of (advertisableServers s) (ServiceType (store s ! p)) = Some g \<and> p \<in> set g)
           \<longleftrightarrow> p \<in> set (inDeviceUuids s)" for p
  proof
    assume "\<exists>g. map_of (advertisableServers s) (ServiceType (store s ! p)) = Some g \<and> p \<in> set g"
    then obtain g where "(ServiceType (store s ! p), g) \<in> set (advertisableServers s)" "p \<in> set g"
      using map_of_SomeD by fast
    then have "p \<in> set (inServiceTypes s)" using in_inServiceTypes by blast
    then show "p \<in> set (inDeviceUuids s)" using same by simp
  next
    assume "p \<in> set (inDeviceUuids s)"
    then have "p \<in> set (inServiceTypes s)" using same by simp
    then obtain t g where tg: "(t, g) \<in> set (advertisableServers s)" "p \<in> set g"
      using in_inServiceTypes by blast
    then have "t = ServiceType (store s ! p)" using d(6) [of t g] by simp
    then have "map_of (advertisableServers s) (ServiceType (store s ! p)) = Some g"
      using tg(1) d(1) by simp
    then show "\<exists>g. map_of (advertisableServers s) (ServiceType (store s ! p)) = Some g \<and> p \<in> set g"
      using tg(2) by blast
  qed
  have c: "usn (store s ! p)
           = ''uuid:'' @ DeviceUuid (store s ! p) @ ''::'' @ ServiceType (store s ! p)"
    if "p < length (store s)" for p
    using d(7) [OF that] by (simp add: usnOf_def)
  show ?thesis
    unfolding registryConsistent_def using a b c by blast
qed

lemma NewSsdp_exNew: "NewSsdp exEnv None = Inr exNew"
  by (simp add: NewSsdp_def exEnv_def exNew_def)

lemma run_twice:
  "run [Advertise exAds, Advertise exAds] exNew
   = exNew\<lparr>store :=
              [exAds\<lparr>usn := usnOf exAds, lastTimer := advertiseTimer 0 1 1800,
                     last3sTimer := advertiseTimer 0 3 1800\<rparr>,
               exAds\<lparr>usn := usnOf exAds, lastTimer := advertiseTimer 1 1 1800,
                     last3sTimer := advertiseTimer 1 3 1800\<rparr>],
            advertisableServers := [(''urn:test:svc:1'', [0, 1])],
            deviceIdToServer := [(''u1'', 1)]\<rparr>"
  by (simp add: AdvertiseServer_def Let_def exNew_def exAds_def)

subsection \<open>The responses to a search\<close>

lemma respondToMSearch_None:
  "ResolveUDPAddr e sendTo = None \<Longrightarrow> respondToMSearch e d sendTo s = s"
  unfolding respondToMSearch_def Let_def by simp

lemma respondToMSearch_Some:
  "ResolveUDPAddr e sendTo = Some addr \<Longrightarrow>
   respondToMSearch e d sendTo s = send (searchResponse e addr (store s ! d)) s"
  unfolding respondToMSearch_def Let_def searchResponse_def by simp

lemma respondToGroup_Some:
  "ResolveUDPAddr e sendTo = Some addr \<Longrightarrow>
   respondToGroup e v sendTo s
   = s\<lparr>writeChannel := writeChannel s @ map (\<lambda>d. searchResponse e addr (store s ! d)) v\<rparr>"
proof (induction e v sendTo s rule: respondToGroup.induct)
  case (1 e sendTo s)
  show ?case by simp
next
  case (2 e d v sendTo s)
  then show ?case
    by (simp add: respondToMSearch_Some)
qed

lemma respondToAll_Some:
  "ResolveUDPAddr e sendTo = Some addr \<Longrightarrow>
   respondToAll e al sendTo s
   = s\<lparr>writeChannel :=
          writeChannel s @ map (\<lambda>d. searchResponse e addr (store s ! d)) (concat (map snd al))\<rparr>"
proof (induction e al sendTo s rule: respondToAll.induct)
  case (1 e sendTo s)
  show ?case by simp
next
  case (2 e k v rest sendTo s)
  then show ?case
    by (simp add: respondToGroup_Some)
qed

lemma respondToGroup_None:
  "ResolveUDPAddr e sendTo = None \<Longrightarrow> respondToGroup e v sendTo s = s"
  by (induction e v sendTo s rule: respondToGroup.induct) (simp_all add: respondToMSearch_None)

lemma respondToAll_None:
  "ResolveUDPAddr e sendTo = None \<Longrightarrow> respondToAll e al sendTo s = s"
  by (induction e al sendTo s rule: respondToAll.induct) (simp_all add: respondToGroup_None)

lemma inMSearch_policy:
  assumes "unquoteST st0 = Inr st" "ResolveUDPAddr e sendTo = Some addr"
  shows "inMSearch e st0 req sendTo s
         = Inr (s\<lparr>slept := slept s @ [seconds (mxOf req)],
                  writeChannel :=
                    writeChannel s
                    @ map (\<lambda>d. searchResponse e addr (store s ! d)) (matchingPolicy s st)\<rparr>)"
proof -
  let ?s = "s\<lparr>slept := slept s @ [seconds (mxOf req)]\<rparr>"
  show ?thesis
  proof (cases "st = ''ssdp:all''")
    case True
    then show ?thesis
      using assms
      by (simp add: inMSearch_def Let_def matchingPolicy_def inServiceTypes_def
          respondToAll_Some [OF assms(2)])
  next
    case False
    show ?thesis
    proof (cases "map_of (deviceIdToServer s) st")
      case (Some d)
      then show ?thesis
        using assms False
        by (simp add: inMSearch_def Let_def matchingPolicy_def
            respondToMSearch_Some [OF assms(2)] send_def)
    next
      case None
      show ?thesis
      proof (cases "map_of (advertisableServers s) st")
        case (Some v)
        then show ?thesis
          using assms False None
          by (simp add: inMSearch_def Let_def matchingPolicy_def
              respondToGroup_Some [OF assms(2)])
      next
        case None': None
        then show ?thesis
          using assms False None
          by (simp add: inMSearch_def Let_def matchingPolicy_def)
      qed
    qed
  qed
qed

lemma inMSearch_unresolved:
  assumes "unquoteST st0 = Inr st" "ResolveUDPAddr e sendTo = None"
  shows "inMSearch e st0 req sendTo s = Inr (s\<lparr>slept := slept s @ [seconds (mxOf req)]\<rparr>)"
  using assms
  by (cases "map_of (deviceIdToServer s) st"; cases "map_of (advertisableServers s) st")
     (simp_all add: inMSearch_def Let_def respondToAll_None respondToGroup_None
       respondToMSearch_None)

lemma distinct_group:
  "distinct (concat (map snd al)) \<Longrightarrow> map_of al k = Some g \<Longrightarrow> distinct g"
  by (induction al) (auto split: if_splits)

lemma matchingPolicy_distinct:
  assumes "registry_inv s"
  shows "distinct (matchingPolicy s st)"
proof -
  have "distinct (inServiceTypes s)"
    using registry_invD(3,4) [OF assms] mset_eq_imp_distinct_iff by blast
  then show ?thesis
    using distinct_group [of "advertisableServers s" st]
    by (cases "map_of (deviceIdToServer s) st"; cases "map_of (advertisableServers s) st")
       (simp_all add: matchingPolicy_def inServiceTypes_def)
qed

subsection \<open>The byebyes of Stop\<close>

lemma advertiseServer_store [simp]: "store (advertiseServer e p alive s) = store s"
  unfolding advertiseServer_def Let_def by (cases "ResolveUDPAddr e multicastAddr") simp_all

lemma advertiseServer_maps [simp]:
  "advertisableServers (advertiseServer e p alive s) = advertisableServers s"
  "deviceIdToServer (advertiseServer e p alive s) = deviceIdToServer s"
  "socket (advertiseServer e p alive s) = socket s"
  unfolding advertiseServer_def Let_def by (cases "ResolveUDPAddr e multicastAddr"; simp)+

lemma advertiseClosedLoop_maps [simp]:
  "advertisableServers (advertiseClosedLoop e al s) = advertisableServers s"
  "deviceIdToServer (advertiseClosedLoop e al s) = deviceIdToServer s"
  "socket (advertiseClosedLoop e al s) = socket s"
  "length (store (advertiseClosedLoop e al s)) = length (store s)"
  by (induction e al s rule: advertiseClosedLoop.induct; simp)+

lemma advertiseClosedLoop_writeChannel:
  "ResolveUDPAddr e multicastAddr = Some addr \<Longrightarrow>
   writeChannel (advertiseClosedLoop e al s)
   = writeChannel s @ map (\<lambda>p. byebye addr (store s ! p)) (map snd al)"
  by (induction e al s rule: advertiseClosedLoop.induct)
     (simp_all add: advertiseServer_byebye)

lemma advertiseClosedLoop_kept:
  "timersStopped (store s ! q) \<Longrightarrow> timersStopped (store (advertiseClosedLoop e al s) ! q)"
  by (induction e al s rule: advertiseClosedLoop.induct)
     (simp_all add: timersStopped_stopTimers_kept)

lemma advertiseClosedLoop_stopped:
  "p \<in> snd ` set al \<Longrightarrow> p < length (store s) \<Longrightarrow>
   timersStopped (store (advertiseClosedLoop e al s) ! p)"
proof (induction e al s rule: advertiseClosedLoop.induct)
  case (1 e s)
  then show ?case by simp
next
  case (2 e k ad rest s)
  show ?case
  proof (cases "p = ad")
    case True
    then have "timersStopped (store (advertiseServer e ad False (stopTimers ad s)) ! p)"
      using "2.prems"(2) by (simp add: timersStopped_stopTimers_same)
    then show ?thesis by (simp add: advertiseClosedLoop_kept)
  next
    case False
    with "2.prems" have "p \<in> snd ` set rest" by auto
    then show ?thesis using "2.IH" "2.prems"(2) by simp
  qed
qed

lemma Stop_open:
  "socket s \<Longrightarrow>
   Stop e s
   = (send sentinel
        (if length (advertisableServers s) > 0
         then advertiseClosed e (s\<lparr>isRunning := False\<rparr>)
         else s\<lparr>isRunning := False\<rparr>))\<lparr>socket := False\<rparr>"
  by (simp add: Stop_def Let_def sentinel_def)

lemma registry_inv_no_groups:
  assumes "registry_inv s" "advertisableServers s = []"
  shows "deviceIdToServer s = []"
proof -
  have "mset (inDeviceUuids s) = {#}"
    using registry_invD(4) [OF assms(1)] assms(2) by (simp add: inServiceTypes_def)
  then show ?thesis by (simp add: inDeviceUuids_def)
qed

lemma Stop_writeChannel:
  assumes "registry_inv s" "socket s" "ResolveUDPAddr e multicastAddr = Some addr"
  shows "writeChannel (Stop e s)
         = writeChannel s @ map (\<lambda>p. byebye addr (store s ! p)) (inDeviceUuids s) @ [sentinel]"
proof (cases "advertisableServers s = []")
  case True
  then show ?thesis
    using registry_inv_no_groups [OF assms(1) True] assms(2)
    by (simp add: Stop_open inDeviceUuids_def)
next
  case False
  then show ?thesis
    using assms(2) advertiseClosedLoop_writeChannel [OF assms(3)]
    by (simp add: Stop_open advertiseClosed_def inDeviceUuids_def)
qed

lemma Stop_timers:
  assumes "registry_inv s" "socket s" "p \<in> set (inDeviceUuids s)"
  shows "timersStopped (store (Stop e s) ! p)"
proof -
  obtain u where u: "(u, p) \<in> set (deviceIdToServer s)"
    using assms(3) in_inDeviceUuids by blast
  then have b: "p < length (store s)" using registry_invD(5) [OF assms(1)] by blast
  have ne: "advertisableServers s \<noteq> []"
    using registry_inv_no_groups [OF assms(1)] u by auto
  have "p \<in> snd ` set (deviceIdToServer (s\<lparr>isRunning := False\<rparr>))"
    using u by force
  then have "timersStopped (store (advertiseClosedLoop e (deviceIdToServer (s\<lparr>isRunning := False\<rparr>))
                                   (s\<lparr>isRunning := False\<rparr>)) ! p)"
    using b by (intro advertiseClosedLoop_stopped) simp_all
  then show ?thesis
    using assms(2) ne by (simp add: Stop_open advertiseClosed_def)
qed

subsection \<open>The concrete registries\<close>

lemma exRegistered_value:
  "exRegistered
   = exNew\<lparr>store :=
              [exAds\<lparr>usn := usnOf exAds, lastTimer := advertiseTimer 0 1 1800,
                     last3sTimer := advertiseTimer 0 3 1800\<rparr>,
               exAds2\<lparr>usn := usnOf exAds2, lastTimer := advertiseTimer 1 1 1800,
                      last3sTimer := advertiseTimer 1 3 1800\<rparr>],
            advertisableServers := [(''urn:test:svc:1'', [0, 1])],
            deviceIdToServer := [(''u1'', 0), (''u2'', 1)]\<rparr>"
  by (simp add: exRegistered_def AdvertiseServer_def Let_def exNew_def exAds_def exAds2_def)

lemma exRegistered_fields:
  "socket exRegistered" "inDeviceUuids exRegistered = [0, 1]"
  "inServiceTypes exRegistered = [0, 1]" "writeChannel exRegistered = []"
  "slept exRegistered = []"
  by (simp_all add: exRegistered_value exNew_def inDeviceUuids_def inServiceTypes_def)

lemma exRegistered_inv: "registry_inv exRegistered"
proof -
  have "oncePerServer [Advertise exAds, Advertise exAds2] exNew"
    by (simp add: AdvertiseServer_def Let_def exNew_def exAds_def exAds2_def)
  then show ?thesis
    unfolding exRegistered_def
    using registry_inv_run registry_inv_NewSsdp [OF NewSsdp_exNew] by blast
qed

lemma exEnv_resolve: "ResolveUDPAddr exEnv a = Some a"
  by (simp add: exEnv_def)

lemma ParseInt_0: "ParseInt ''0'' = (0, None)"
  by (simp add: ParseInt_def isDigit_def digitsValue_def digitVal_def intSize_def)

lemma mxOf_exSearchAll: "mxOf exSearchAll = 0"
  by (rule mxOf_parsed [where v = 0]) (simp add: exSearchAll_def Get_def ParseInt_0)

lemma Stop_closed: "\<not> socket s \<Longrightarrow> Stop e s = s\<lparr>isRunning := False\<rparr>"
  by (simp add: Stop_def Let_def)

lemma socket_Stop: "\<not> socket (Stop e s)"
  by (cases "socket s") (simp_all add: Stop_open Stop_closed)

lemma Stop_deviceIdToServer: "deviceIdToServer (Stop e s) = deviceIdToServer s"
  by (cases "socket s") (simp_all add: Stop_open Stop_closed advertiseClosed_def)

lemma Stop_advertisableServers: "advertisableServers (Stop e s) = advertisableServers s"
  by (cases "socket s") (simp_all add: Stop_open Stop_closed advertiseClosed_def)

lemma exDuplicate_value:
  "exDuplicate
   = exNew\<lparr>store :=
              [exAds\<lparr>usn := usnOf exAds, lastTimer := advertiseTimer 0 1 1800,
                     last3sTimer := advertiseTimer 0 3 1800\<rparr>,
               exAds\<lparr>usn := usnOf exAds, lastTimer := advertiseTimer 1 1 1800,
                     last3sTimer := advertiseTimer 1 3 1800\<rparr>],
            advertisableServers := [(''urn:test:svc:1'', [0, 1])],
            deviceIdToServer := [(''u1'', 1)]\<rparr>"
  unfolding exDuplicate_def by (rule run_twice)

lemma exDuplicate_fields:
  "socket exDuplicate" "deviceIdToServer exDuplicate = [(''u1'', 1)]"
  "advertisableServers exDuplicate = [(''urn:test:svc:1'', [0, 1])]"
  "inServiceTypes exDuplicate = [0, 1]" "writeChannel exDuplicate = []"
  "active (lastTimer (store exDuplicate ! 0))"
  by (simp_all add: exDuplicate_value exNew_def inServiceTypes_def advertiseTimer_def)

section \<open>The claims\<close>

text \<open>
  C1. The claim: with a listener, alive and bye events are reported only for search
  targets given to \<open>ListenFor\<close>. The code does not do this: \<open>notify\<close> never
  reads \<open>listenSearchTargets\<close>. With the filter holding only \<open>urn:a\<close>, a
  \<open>NOTIFY\<close> with \<open>NT: urn:b\<close> and \<open>NTS: ssdp:alive\<close> is reported to the
  listener as an alive event.
\<close>

theorem notify_ignores_listen_filter:
  "listenSearchTargets exListening ''urn:b'' = None
   \<and> listener (notify exNotifyB exListening)
       = Some [NotifyAlive
                 \<lparr>SearchType = ''urn:b'', DeviceId = [], Usn = [], LocationOf = [],
                  MaxAgeOf = - 1, Server = [], RawRequest = exNotifyB\<rparr>]"
  by (simp add: notify_def Get_def ToLower_def lowerChar_def notifyListener_def
      deviceIdOfUsn_def maxAgeOf_def Let_def exListening_def exNotifyB_def)

text \<open>
  C2. The claim: the delay before the responses is the value of \<open>MX\<close> in seconds
  when it parses. The code does not do this: \<open>inMSearch\<close> takes the parsed value
  only when \<open>ParseInt\<close> returned an error. For a valid search with \<open>MX: 3\<close>
  the value of \<open>mx\<close> is 0, and \<open>time.Sleep\<close> is called with 0.
\<close>

theorem mx_parsed_gives_no_delay:
  "mxOf exSearchMX3 = 0
   \<and> (\<exists>s'. msearch e exSearchMX3 ''10.0.0.7:1900'' s = Inr s' \<and> slept s' = slept s @ [0])"
proof -
  have m: "mxOf exSearchMX3 = 0"
    by (rule mxOf_parsed [where v = 3]) (simp add: exSearchMX3_def Get_def ParseInt_3)
  have u: "unquoteST ''urn:x'' = Inr ''urn:x''"
    by (simp add: unquoteST_def dquote_def)
  have "\<exists>s'. inMSearch e ''urn:x'' exSearchMX3 ''10.0.0.7:1900'' s = Inr s'"
    by (simp add: inMSearch_def u Let_def)
  then obtain s' where i: "inMSearch e ''urn:x'' exSearchMX3 ''10.0.0.7:1900'' s = Inr s'"
    by blast
  have "msearch e exSearchMX3 ''10.0.0.7:1900'' s
        = inMSearch e ''urn:x'' exSearchMX3 ''10.0.0.7:1900'' s"
    by (simp add: msearch_def exSearchMX3_def Get_def Let_def)
  with i inMSearch_slept [OF i] m seconds_0 show ?thesis by simp
qed

text \<open>
  C3. The claim: a search target in quotes is used with the first and the last
  character removed. The code does not do this: the slice \<open>st[1:len(st) - 2]\<close>
  removes the first character and the last two. The quoted target \<open>"ssdp:all"\<close>
  becomes \<open>ssdp:al\<close>.
\<close>

theorem quoted_st_loses_last_character:
  "unquoteST (dquote # ''ssdp:all'' @ [dquote]) = Inr ''ssdp:al''"
  by (simp add: unquoteST_def unquoteBounds_def slice_def dquote_def)

text \<open>
  C4. The max-age of a \<open>CACHE-CONTROL\<close> value, for alive events and for
  responses alike. For \<open>n\<close> below \<open>2^63\<close>, a value of one line that holds
  \<open>max-age=n\<close>, with no digit after it and no further \<open>max-age=\<close> with a digit
  behind it, gives \<open>n\<close>. From \<open>2^63\<close> on, \<open>ParseInt\<close> reports a range
  error and the max-age is -1: the claim, which is stated for every \<open>n\<close>, fails
  there. An absent header and a value without the pattern give -1.
\<close>

theorem maxAge_parsing:
  "(n < 2 ^ 63 \<and> newline \<notin> set pre \<and> newline \<notin> set suf \<and> lastMaxAge suf = None
      \<and> (suf = [] \<or> \<not> isDigit (hd suf)) \<longrightarrow>
    maxAgeOf (pre @ ''max-age='' @ utoa n @ suf) = int n)
   \<and> (2 ^ 63 \<le> n \<longrightarrow> maxAgeOf (''max-age='' @ utoa n) = - 1)
   \<and> maxAgeOf [] = - 1
   \<and> ((\<forall>l \<in> set (Split cc newline). lastMaxAge l = None) \<longrightarrow> maxAgeOf cc = - 1)
   \<and> (listener s = Some evs \<longrightarrow>
        (\<exists>new. listener (notify req s) = Some (evs @ new) \<and> list_all maxAgeFromHeader new)
        \<and> (\<exists>new. listener (parseResponse e msg hostPort s) = Some (evs @ new)
                  \<and> list_all maxAgeFromHeader new))"
proof -
  have a: "maxAgeOf (pre @ ''max-age='' @ utoa n @ suf) = int n"
    if "n < 2 ^ 63" "newline \<notin> set pre" "newline \<notin> set suf" "lastMaxAge suf = None"
      "suf = [] \<or> \<not> isDigit (hd suf)"
    using maxAgeOf_contains [OF that(2-5), of n] that(1) by simp
  have b: "maxAgeOf (''max-age='' @ utoa n) = - 1" if "2 ^ 63 \<le> n"
    using maxAgeOf_contains [of "[]" "[]" n] that by simp
  have c: "maxAgeOf [] = - 1" by (simp add: maxAgeOf_def)
  have d: "maxAgeOf cc = - 1" if "\<forall>l \<in> set (Split cc newline). lastMaxAge l = None"
    using that by (rule maxAgeOf_no_match)
  have e1: "\<exists>new. listener (notify req s) = Some (evs @ new) \<and> list_all maxAgeFromHeader new"
    if "listener s = Some evs"
    using notify_events [OF that, of req] by blast
  have e2: "\<exists>new. listener (parseResponse e msg hostPort s) = Some (evs @ new)
                  \<and> list_all maxAgeFromHeader new"
    if "listener s = Some evs"
    using parseResponse_events [OF that, of e msg hostPort] by blast
  from a b c d e1 e2 show ?thesis by blast
qed

theorem maxAge_overflow_counterexample:
  "utoa 9223372036854775808 = ''9223372036854775808''
   \<and> maxAgeOf ''max-age=9223372036854775808'' \<noteq> 9223372036854775808"
proof -
  have "maxAgeOf ([] @ ''max-age='' @ utoa 9223372036854775808 @ []) = - 1"
    by (subst maxAgeOf_contains) simp_all
  then show ?thesis by (simp add: utoa_2_63)
qed

theorem maxAge_parsing_witness:
  "maxAgeOf ''no-cache, max-age=1800, private'' = 1800
   \<and> maxAgeOf ''max-age=9223372036854775808'' = - 1
   \<and> maxAgeOf ''max-age=abc'' = - 1
   \<and> (\<exists>new. listener (notify exAlive exListening) = Some new \<and> list_all maxAgeFromHeader new)"
proof -
  note t = maxAge_parsing [of 1800 "''no-cache, ''" "'', private''" "''max-age=abc''"
      exListening "[]" exAlive exEnv "[]" "[]"]
  note t2 = maxAge_parsing [of 9223372036854775808 "[]" "[]" "[]" exListening "[]" exAlive exEnv "[]" "[]"]
  have h: "(1800::nat) < 2 ^ 63" "newline \<notin> set ''no-cache, ''" "newline \<notin> set '', private''"
    "'', private'' = [] \<or> \<not> isDigit (hd '', private'')"
    by (simp_all add: newline_def isDigit_def)
  have "maxAgeOf (''no-cache, '' @ ''max-age='' @ utoa 1800 @ '', private'') = 1800"
    using t h lastMaxAge_private by simp
  then have 1: "maxAgeOf ''no-cache, max-age=1800, private'' = 1800"
    by (simp add: utoa_1800)
  have "maxAgeOf (''max-age='' @ utoa 9223372036854775808) = - 1"
    using t2 by simp
  then have 2: "maxAgeOf ''max-age=9223372036854775808'' = - 1"
    by (simp add: utoa_2_63)
  have "Split ''max-age=abc'' newline = [''max-age=abc'']"
    by (rule Split_no_sep) (simp add: newline_def)
  then have "\<forall>l \<in> set (Split ''max-age=abc'' newline). lastMaxAge l = None"
    using lastMaxAge_abc by (simp del: lastMaxAge.simps)
  then have 3: "maxAgeOf ''max-age=abc'' = - 1" using t by blast
  have "listener exListening = Some []" by (simp add: exListening_def)
  then have 4: "\<exists>new. listener (notify exAlive exListening) = Some new \<and> list_all maxAgeFromHeader new"
    using t by simp
  from 1 2 3 4 show ?thesis by blast
qed

text \<open>
  C5. The device id of a USN: with the USN split at the colons, it is the second part
  when there are at least three parts and the first is \<open>uuid\<close>, and empty
  otherwise, for the empty USN too. For \<open>X\<close> without a colon, the USN
  \<open>uuid:X::Y\<close> gives \<open>X\<close> and the USN \<open>uuid:X\<close> gives the empty string.
  Every event that \<open>notify\<close> or \<open>parseResponse\<close> reports carries this device
  id of its USN.
\<close>

theorem deviceId_extraction:
  "deviceIdOfUsn u =
     (if 3 \<le> length (Split u colon) \<and> Split u colon ! 0 = ''uuid''
      then Split u colon ! 1 else [])
   \<and> (colon \<notin> set X \<longrightarrow> deviceIdOfUsn (''uuid:'' @ X @ ''::'' @ Y) = X)
   \<and> (colon \<notin> set X \<longrightarrow> deviceIdOfUsn (''uuid:'' @ X) = [])
   \<and> deviceIdOfUsn [] = []
   \<and> (listener s = Some evs \<longrightarrow>
        (\<exists>new. listener (notify req s) = Some (evs @ new) \<and> list_all deviceIdFromUsn new)
        \<and> (\<exists>new. listener (parseResponse e msg hostPort s) = Some (evs @ new)
                  \<and> list_all deviceIdFromUsn new))"
proof -
  have a: "deviceIdOfUsn u =
     (if 3 \<le> length (Split u colon) \<and> Split u colon ! 0 = ''uuid''
      then Split u colon ! 1 else [])"
    by (cases u) (auto simp: deviceIdOfUsn_def Let_def)
  have s1: "Split (''uuid'' @ colon # X @ colon # colon # Y) colon
            = ''uuid'' # Split (X @ colon # colon # Y) colon"
    using Split_append_sep [OF uuid_no_colon] by blast
  have b: "deviceIdOfUsn (''uuid:'' @ X @ ''::'' @ Y) = X" if "colon \<notin> set X"
  proof -
    have "Split (X @ colon # colon # Y) colon = X # Split (colon # Y) colon"
      using that by (rule Split_append_sep)
    then have "Split (''uuid'' @ colon # X @ colon # colon # Y) colon
               = ''uuid'' # X # [] # Split Y colon"
      using s1 by simp
    moreover have "''uuid:'' @ X @ ''::'' @ Y = ''uuid'' @ colon # X @ colon # colon # Y"
      by (simp add: colon_def)
    ultimately show ?thesis
      by (simp add: deviceIdOfUsn_def Let_def)
  qed
  have c: "deviceIdOfUsn (''uuid:'' @ X) = []" if "colon \<notin> set X"
  proof -
    have "Split (''uuid'' @ colon # X) colon = ''uuid'' # Split X colon"
      using Split_append_sep [OF uuid_no_colon] by blast
    then have "Split (''uuid'' @ colon # X) colon = [''uuid'', X]"
      using that by (simp add: Split_no_sep)
    moreover have "''uuid:'' @ X = ''uuid'' @ colon # X"
      by (simp add: colon_def)
    ultimately show ?thesis
      by (simp add: deviceIdOfUsn_def Let_def)
  qed
  have d: "deviceIdOfUsn [] = []"
    by (simp add: deviceIdOfUsn_def)
  have e1: "\<exists>new. listener (notify req s) = Some (evs @ new) \<and> list_all deviceIdFromUsn new"
    if "listener s = Some evs"
    using notify_events [OF that, of req] by blast
  have e2: "\<exists>new. listener (parseResponse e msg hostPort s) = Some (evs @ new)
                  \<and> list_all deviceIdFromUsn new"
    if "listener s = Some evs"
    using parseResponse_events [OF that, of e msg hostPort] by blast
  from a b c d e1 e2 show ?thesis by blast
qed

theorem deviceId_extraction_witness:
  "deviceIdOfUsn ''uuid:abc::urn:x'' = ''abc''
   \<and> deviceIdOfUsn ''uuid:abc'' = []
   \<and> deviceIdOfUsn ''urn:a:b:c'' = []
   \<and> (\<exists>new. listener (notify exAlive exListening) = Some new \<and> list_all deviceIdFromUsn new)"
proof -
  have n: "colon \<notin> set ''abc''" by (simp add: colon_def)
  have "deviceIdOfUsn (''uuid:'' @ ''abc'' @ ''::'' @ ''urn:x'') = ''abc''"
    using deviceId_extraction [of "''abc''" "''abc''" "''urn:x''"] n by blast
  moreover have "deviceIdOfUsn (''uuid:'' @ ''abc'') = []"
    using deviceId_extraction [of "''abc''" "''abc''" "''urn:x''"] n by blast
  moreover have "deviceIdOfUsn ''urn:a:b:c'' = []"
    using deviceId_extraction [of "''urn:a:b:c''" "''abc''" "''urn:x''"] by (simp add: colon_def)
  moreover have "\<exists>new. listener (notify exAlive exListening) = Some new
                       \<and> list_all deviceIdFromUsn new"
    using deviceId_extraction [of "''abc''" "''abc''" "''urn:x''" exListening "[]" exAlive]
    by (simp add: exListening_def)
  ultimately show ?thesis by simp
qed

text \<open>
  C6. The matching policy of the search responder. With \<open>st\<close> the search target
  after the unquoting step and a sender whose address resolves, \<open>inMSearch\<close>
  sleeps, sends one response for each advertisement of the policy for \<open>st\<close>, in
  its order, and changes nothing else: all advertisements of the service-type index for
  \<open>ssdp:all\<close>; otherwise the one advertisement of the device UUID, when the target is
  a key of that index; otherwise the advertisements of the group, when the target is a
  service type; otherwise none. In a consistent registry no advertisement is answered
  twice, and \<open>ssdp:all\<close> answers for the advertisements of the device-UUID index.
\<close>

theorem msearch_matching_policy:
  assumes "unquoteST st0 = Inr st" and "ResolveUDPAddr e sendTo = Some addr"
  shows "inMSearch e st0 req sendTo s
         = Inr (s\<lparr>slept := slept s @ [seconds (mxOf req)],
                  writeChannel :=
                    writeChannel s
                    @ map (\<lambda>d. searchResponse e addr (store s ! d)) (matchingPolicy s st)\<rparr>)
         \<and> (registry_inv s \<longrightarrow>
              distinct (matchingPolicy s st)
              \<and> set (matchingPolicy s ''ssdp:all'') = set (inDeviceUuids s))"
proof -
  have a: "inMSearch e st0 req sendTo s
         = Inr (s\<lparr>slept := slept s @ [seconds (mxOf req)],
                  writeChannel :=
                    writeChannel s
                    @ map (\<lambda>d. searchResponse e addr (store s ! d)) (matchingPolicy s st)\<rparr>)"
    using assms by (rule inMSearch_policy)
  have b: "distinct (matchingPolicy s st)
           \<and> set (matchingPolicy s ''ssdp:all'') = set (inDeviceUuids s)" if "registry_inv s"
    using matchingPolicy_distinct [OF that] registry_inv_same_set [OF that]
    by (simp add: matchingPolicy_def)
  from a b show ?thesis by blast
qed

theorem msearch_matching_policy_witness:
  "inMSearch exEnv ''ssdp:all'' exSearchAll ''10.0.0.7:1900'' exRegistered
   = Inr (exRegistered
            \<lparr>slept := [0],
             writeChannel :=
               [searchResponse exEnv ''10.0.0.7:1900'' (store exRegistered ! 0),
                searchResponse exEnv ''10.0.0.7:1900'' (store exRegistered ! 1)]\<rparr>)
   \<and> distinct (matchingPolicy exRegistered ''ssdp:all'')"
proof -
  have h: "unquoteST ''ssdp:all'' = Inr ''ssdp:all''"
    "ResolveUDPAddr exEnv ''10.0.0.7:1900'' = Some ''10.0.0.7:1900''"
    by (simp_all add: unquoteST_plain dquote_def exEnv_resolve)
  have m: "matchingPolicy exRegistered ''ssdp:all'' = [0, 1]"
    by (simp add: matchingPolicy_def exRegistered_fields)
  show ?thesis
    using msearch_matching_policy [OF h, of exSearchAll exRegistered] exRegistered_inv
    by (simp add: m mxOf_exSearchAll seconds_0 exRegistered_fields)
qed

text \<open>
  C7. The byebyes of \<open>Stop\<close>. The claim is stated for every registry and every call
  of \<open>Stop\<close>. It fails after a device UUID was advertised twice: two advertisements
  are registered under the service type, one byebye is sent, and the timers of the
  first advertisement stay armed. It fails for a second call of \<open>Stop\<close> as well,
  which sends nothing. With a consistent registry (each device UUID advertised once
  while registered) and the socket still open, \<open>Stop\<close> sends exactly one byebye for
  each registered advertisement, a \<open>NOTIFY\<close> with the headers \<open>HOST\<close>,
  \<open>NT\<close>, \<open>NTS: ssdp:byebye\<close> and the \<open>USN\<close> of the advertisement, then the
  message that ends the writer, and both timers of each advertisement are stopped.
\<close>

theorem stop_emits_byebyes:
  assumes "registry_inv s" "socket s" "ResolveUDPAddr e multicastAddr = Some addr"
  shows "writeChannel (Stop e s)
         = writeChannel s @ map (\<lambda>p. byebye addr (store s ! p)) (inDeviceUuids s) @ [sentinel]
         \<and> distinct (inDeviceUuids s)
         \<and> set (inDeviceUuids s) = set (inServiceTypes s)
         \<and> (\<forall>p \<in> set (inDeviceUuids s). timersStopped (store (Stop e s) ! p))"
  using Stop_writeChannel [OF assms] Stop_timers [OF assms(1,2)]
    registry_invD(3) [OF assms(1)] registry_inv_same_set [OF assms(1)]
  by simp

theorem stop_emits_byebyes_witness:
  "writeChannel (Stop exEnv exRegistered)
   = [byebye multicastAddr (store exRegistered ! 0),
      byebye multicastAddr (store exRegistered ! 1), sentinel]
   \<and> timersStopped (store (Stop exEnv exRegistered) ! 0)
   \<and> timersStopped (store (Stop exEnv exRegistered) ! 1)"
  using stop_emits_byebyes [OF exRegistered_inv exRegistered_fields(1) exEnv_resolve]
  by (simp add: exRegistered_fields)

theorem stop_duplicate_counterexample:
  "inServiceTypes exDuplicate = [0, 1]
   \<and> writeChannel (Stop exEnv exDuplicate) = [byebye multicastAddr (store exDuplicate ! 1), sentinel]
   \<and> \<not> timersStopped (store (Stop exEnv exDuplicate) ! 0)
   \<and> inServiceTypes (Stop exEnv exRegistered) = [0, 1]
   \<and> writeChannel (Stop exEnv (Stop exEnv exRegistered)) = writeChannel (Stop exEnv exRegistered)"
proof -
  have w: "writeChannel (Stop exEnv exDuplicate)
           = [byebye multicastAddr (store exDuplicate ! 1), sentinel]"
    using advertiseClosedLoop_writeChannel [OF exEnv_resolve,
        of "[(''u1'', 1)]" "exDuplicate\<lparr>isRunning := False\<rparr>"]
    by (simp add: Stop_open exDuplicate_fields advertiseClosed_def)
  have "store (Stop exEnv exDuplicate) ! 0 = store exDuplicate ! 0"
    by (simp add: Stop_open exDuplicate_fields advertiseClosed_def store_stopTimers)
  then have t: "\<not> timersStopped (store (Stop exEnv exDuplicate) ! 0)"
    by (simp add: timersStopped_def exDuplicate_fields)
  have r: "inServiceTypes (Stop exEnv exRegistered) = [0, 1]"
    using exRegistered_fields(3)
    by (simp add: inServiceTypes_def Stop_advertisableServers)
  have "writeChannel (Stop exEnv (Stop exEnv exRegistered)) = writeChannel (Stop exEnv exRegistered)"
    by (simp add: Stop_closed [OF socket_Stop])
  with w t r show ?thesis by (simp add: exDuplicate_fields)
qed

text \<open>
  C8. \<open>Stop\<close> marks the engine not running. On an engine that is not running,
  \<open>AdvertiseServer\<close> and \<open>RemoveServer\<close> change nothing (neither index, nor
  the filter, nor anything else), and \<open>ListenFor\<close> returns the error of an engine
  that is not running, adds nothing to the filter and sends no message.
\<close>

theorem api_after_stop:
  "isRunning (Stop e s0) = False
   \<and> (\<not> isRunning s \<longrightarrow>
        AdvertiseServer ads s = s
        \<and> RemoveServer deviceUuid s = s
        \<and> ListenFor e searchTarget s = (Some ErrNotRunning, s))"
  by (simp add: isRunning_Stop AdvertiseServer_def RemoveServer_def ListenFor_def)

theorem api_after_stop_witness:
  "\<not> isRunning (Stop exEnv exListening)
   \<and> AdvertiseServer exAds (Stop exEnv exListening) = Stop exEnv exListening
   \<and> RemoveServer ''u1'' (Stop exEnv exListening) = Stop exEnv exListening
   \<and> ListenFor exEnv ''urn:b'' (Stop exEnv exListening)
       = (Some ErrNotRunning, Stop exEnv exListening)"
  using api_after_stop [of exEnv exListening "Stop exEnv exListening" exAds "''u1''" "''urn:b''"]
  by simp

text \<open>
  C9. The claim states the consistency of the registry after any sequence of calls of
  \<open>AdvertiseServer\<close> and \<open>RemoveServer\<close>. It fails when a device UUID is
  advertised while it is registered: the group then holds both advertisements and
  the index of the device UUIDs only the second. It holds for the sequences the comment
  on \<open>AdvertiseServer\<close> asks for, in which no call advertises a device UUID that is
  registered at that moment: from a new engine, after such a sequence there is one entry
  per device UUID, an advertisement is in the group of its service type if and only if
  it is in the index of the device UUIDs, and every USN is \<open>uuid:\<close>, the device
  UUID, \<open>::\<close> and the service type.
\<close>

theorem registry_consistency:
  "NewSsdp e l = Inr s0 \<Longrightarrow> oncePerServer cs s0 \<Longrightarrow> registryConsistent (run cs s0)"
  using registry_inv_consistent registry_inv_run registry_inv_NewSsdp by blast

theorem registry_consistency_witness:
  "NewSsdp exEnv None = Inr exNew
   \<and> oncePerServer [Advertise exAds, Advertise exAds2, Remove ''u1''] exNew
   \<and> registryConsistent (run [Advertise exAds, Advertise exAds2, Remove ''u1''] exNew)"
proof -
  have o: "oncePerServer [Advertise exAds, Advertise exAds2, Remove ''u1''] exNew"
    by (simp add: AdvertiseServer_def Let_def exNew_def exAds_def exAds2_def)
  show ?thesis
    using registry_consistency [OF NewSsdp_exNew o] NewSsdp_exNew o by simp
qed

theorem registry_duplicate_counterexample:
  "NewSsdp exEnv None = Inr exNew
   \<and> \<not> registryConsistent (run [Advertise exAds, Advertise exAds] exNew)"
proof -
  let ?s = "run [Advertise exAds, Advertise exAds] exNew"
  have "\<not> registryConsistent ?s"
  proof
    assume "registryConsistent ?s"
    then have "\<forall>p < length (store ?s).
          (\<exists>g. map_of (advertisableServers ?s) (ServiceType (store ?s ! p)) = Some g \<and> p \<in> set g)
          \<longleftrightarrow> p \<in> set (inDeviceUuids ?s)"
      unfolding registryConsistent_def by blast
    then have "0 < length (store ?s) \<longrightarrow>
          ((\<exists>g. map_of (advertisableServers ?s) (ServiceType (store ?s ! 0)) = Some g \<and> 0 \<in> set g)
           \<longleftrightarrow> 0 \<in> set (inDeviceUuids ?s))"
      by (rule spec)
    then show False
      unfolding run_twice by (simp add: inDeviceUuids_def exAds_def exNew_def)
  qed
  then show ?thesis using NewSsdp_exNew by simp
qed

text \<open>
  C10. The first statement of \<open>inMSearch\<close> is not total. For the search target of
  the single character \<open>"\<close> both tests for a quote pass on that character and the
  slice \<open>st[1:len(st) - 2]\<close> has the upper bound -1; for the target \<open>""\<close> of
  two characters the upper bound is 0, below the lower bound 1. Either slice panics,
  and so does the processing of a valid M-SEARCH datagram that carries the target. The
  claim says that the upper bound is negative for the target of two characters too; it
  is 0 there.
\<close>

theorem unquote_panics:
  "unquoteBounds [dquote] = (1, - 1)
   \<and> unquoteBounds [dquote, dquote] = (1, 0)
   \<and> (st = [dquote] \<or> st = [dquote, dquote] \<longrightarrow>
        unquoteST st = Inl SliceBoundsOutOfRange
        \<and> inMSearch e st req sendTo s = Inl SliceBoundsOutOfRange
        \<and> (Get (Header req) ''MAN'' \<noteq> [] \<and> Get (Header req) ''MX'' \<noteq> []
             \<and> Get (Header req) ''ST'' = st \<longrightarrow>
            msearch e req sendTo s = Inl SliceBoundsOutOfRange
            \<and> (Method req = ''M-SEARCH'' \<and> Path req = ''*'' \<and> take 4 msg \<noteq> ''HTTP''
                 \<and> ReadRequest e msg = Some req \<longrightarrow>
                parseMessage e msg sendTo s = Inl SliceBoundsOutOfRange)))"
proof -
  have u: "unquoteST st = Inl SliceBoundsOutOfRange" if "st = [dquote] \<or> st = [dquote, dquote]"
    using that by (auto simp: unquoteST_def unquoteBounds_def slice_def)
  have i: "inMSearch e st req sendTo s = Inl SliceBoundsOutOfRange"
    if "st = [dquote] \<or> st = [dquote, dquote]"
    using u [OF that] by (simp add: inMSearch_def)
  have m: "msearch e req sendTo s = Inl SliceBoundsOutOfRange"
    if "st = [dquote] \<or> st = [dquote, dquote]" "Get (Header req) ''MAN'' \<noteq> []"
      "Get (Header req) ''MX'' \<noteq> []" "Get (Header req) ''ST'' = st"
    using i [OF that(1)] that by (auto simp: msearch_def Let_def)
  have p: "parseMessage e msg sendTo s = Inl SliceBoundsOutOfRange"
    if "st = [dquote] \<or> st = [dquote, dquote]" "Get (Header req) ''MAN'' \<noteq> []"
      "Get (Header req) ''MX'' \<noteq> []" "Get (Header req) ''ST'' = st"
      "Method req = ''M-SEARCH''" "Path req = ''*''" "take 4 msg \<noteq> ''HTTP''"
      "ReadRequest e msg = Some req"
    using m [OF that(1-4)] that(5-8) by (simp add: parseMessage_def parseCommand_def)
  have b: "unquoteBounds [dquote] = (1, - 1)" "unquoteBounds [dquote, dquote] = (1, 0)"
    by (simp_all add: unquoteBounds_def)
  from u i m p b show ?thesis by blast
qed

theorem unquote_panics_witness:
  "parseMessage (exEnv\<lparr>ReadRequest := (\<lambda>m. Some exSearchQuote)\<rparr>)
       ''M-SEARCH * HTTP/1.1'' ''10.0.0.7:1900'' exListening
     = Inl SliceBoundsOutOfRange
   \<and> msearch exEnv exSearchQuote ''10.0.0.7:1900'' exListening = Inl SliceBoundsOutOfRange"
proof -
  have h: "Get (Header exSearchQuote) ''MAN'' \<noteq> []" "Get (Header exSearchQuote) ''MX'' \<noteq> []"
      "Get (Header exSearchQuote) ''ST'' = [dquote]" "Method exSearchQuote = ''M-SEARCH''"
      "Path exSearchQuote = ''*''"
    by (simp_all add: exSearchQuote_def Get_def)
  have r: "ReadRequest (exEnv\<lparr>ReadRequest := (\<lambda>m. Some exSearchQuote)\<rparr>) ''M-SEARCH * HTTP/1.1''
           = Some exSearchQuote"
    "take 4 ''M-SEARCH * HTTP/1.1'' \<noteq> ''HTTP''"
    by simp_all
  show ?thesis
    using unquote_panics [of "[dquote]" "exEnv\<lparr>ReadRequest := (\<lambda>m. Some exSearchQuote)\<rparr>"
        exSearchQuote "''10.0.0.7:1900''" exListening "''M-SEARCH * HTTP/1.1''"]
      unquote_panics [of "[dquote]" exEnv exSearchQuote "''10.0.0.7:1900''" exListening
        "''M-SEARCH * HTTP/1.1''"]
      h r by simp
qed

theorem unquote_bound_counterexample:
  "\<not> snd (unquoteBounds [dquote, dquote]) < 0"
  by (simp add: unquoteBounds_def)

end
